theory Spec2Isabelle
  imports
    Complex_Main
    "HOL-Library.Char_ord"
    "HOL-Library.List_Lexorder"
    "HOL-Library.Log_Nat"
    "HOL-Library.Product_Lexorder"
begin

section \<open>Population EDA: the loader, the forecaster and the derived views of app\_eda.py\<close>

text \<open>
  The program is a pandas pipeline. A DataFrame is modelled as its list of column labels
  and its list of rows, a row giving the cell under each label. Strings are byte lists:
  the Korean labels of the source are written as their UTF-8 bytes, which keeps both
  equality and the code-point order of Python strings.

  Numbers are machine numbers. An \<open>int64\<close> is an \<open>int\<close> between -2^63 and
  2^63 - 1, and arithmetic on it wraps around. A finite \<open>float64\<close> is the real it
  stands for, and the result of an operation is rounded to the nearest number with 53
  significant bits, ties to the even one. The two infinite floats and NaN are values of
  their own, since pandas treats them apart.
\<close>

subsection \<open>Cells and errors\<close>

datatype number = IntN int | FloatN real | InfN bool | NaN

datatype cell = Num number | Str string

datatype error =
    KeyError string
  | IntCastingNaNError
  | ValueError
  | IndexError
  | OverflowError
  | EmptyDataError

record frame =
  columns :: "string list"
  rows :: "(string \<Rightarrow> cell) list"

subsection \<open>Machine numbers\<close>

definition fits_int64 :: "int \<Rightarrow> bool" where
  "fits_int64 i = (- (2 ^ 63) \<le> i \<and> i < 2 ^ 63)"

definition wrap64 :: "int \<Rightarrow> int" where
  \<comment> \<open>the \<open>int64\<close> that an integer result is stored as\<close>
  "wrap64 i = (i + 2 ^ 63) mod 2 ^ 64 - 2 ^ 63"

definition pow2 :: "int \<Rightarrow> real" where
  "pow2 e = (if 0 \<le> e then 2 ^ nat e else 1 / 2 ^ nat (- e))"

definition exponent :: "real \<Rightarrow> int" where
  \<comment> \<open>the binary exponent e of a non-zero real: \<open>2^e \<le> \<bar>x\<bar> < 2^(e+1)\<close>\<close>
  "exponent x =
     (if 1 \<le> \<bar>x\<bar> then bitlen \<lfloor>\<bar>x\<bar>\<rfloor> - 1 else - bitlen (\<lceil>1 / \<bar>x\<bar>\<rceil> - 1))"

definition round_even :: "real \<Rightarrow> int" where
  \<comment> \<open>the nearest integer, the even one of two that are equally near\<close>
  "round_even x =
     (let f = \<lfloor>x\<rfloor>; d = x - of_int f
      in if d < 1 / 2 then f else if 1 / 2 < d then f + 1 else if even f then f else f + 1)"

definition float64 :: "real \<Rightarrow> real" where
  \<comment> \<open>rounding to \<open>float64\<close>, for magnitudes below 2^1024: 53 significant bits, and
      steps of 2^-1074 below 2^-1022\<close>
  "float64 x =
     (if x = 0 then 0
      else (let u = pow2 (max (exponent x) (- 1022) - 52)
            in of_int (round_even (x / u)) * u))"

definition trunc :: "real \<Rightarrow> int" where
  \<comment> \<open>conversion of a float to an integer drops the fraction\<close>
  "trunc q = (if 0 \<le> q then \<lfloor>q\<rfloor> else \<lceil>q\<rceil>)"

definition float_sub :: "int \<Rightarrow> int \<Rightarrow> int" where
  \<comment> \<open>the difference of two \<open>int64\<close> values taken in \<open>float64\<close>; it is a whole
      number, given as an \<open>int\<close>\<close>
  "float_sub a b = \<lfloor>float64 (float64 (of_int a) - float64 (of_int b))\<rfloor>"

subsection \<open>Column labels and region names\<close>

definition col_region :: string where
  "col_region = [CHR 0xEC, CHR 0xA7, CHR 0x80, CHR 0xEC, CHR 0x97, CHR 0xAD]"

definition col_year :: string where
  "col_year = [CHR 0xEC, CHR 0x97, CHR 0xB0, CHR 0xEB, CHR 0x8F, CHR 0x84]"

definition col_population :: string where
  "col_population = [CHR 0xEC, CHR 0x9D, CHR 0xB8, CHR 0xEA, CHR 0xB5, CHR 0xAC]"

definition col_births :: string where
  "col_births = [CHR 0xEC, CHR 0xB6, CHR 0x9C, CHR 0xEC, CHR 0x83, CHR 0x9D, CHR 0xEC, CHR 0x95,
     CHR 0x84, CHR 0xEC, CHR 0x88, CHR 0x98, CHR 0x28, CHR 0xEB, CHR 0xAA, CHR 0x85, CHR 0x29]"

definition col_deaths :: string where
  "col_deaths = [CHR 0xEC, CHR 0x82, CHR 0xAC, CHR 0xEB, CHR 0xA7, CHR 0x9D, CHR 0xEC, CHR 0x9E,
     CHR 0x90, CHR 0xEC, CHR 0x88, CHR 0x98, CHR 0x28, CHR 0xEB, CHR 0xAA, CHR 0x85, CHR 0x29]"

definition col_region_en :: string where
  "col_region_en = ''region_en''"

definition sejong :: string where
  "sejong = [CHR 0xEC, CHR 0x84, CHR 0xB8, CHR 0xEC, CHR 0xA2, CHR 0x85]"

definition national :: string where
  "national = [CHR 0xEC, CHR 0xA0, CHR 0x84, CHR 0xEA, CHR 0xB5, CHR 0xAD]"

definition seoul :: string where
  "seoul = [CHR 0xEC, CHR 0x84, CHR 0x9C, CHR 0xEC, CHR 0x9A, CHR 0xB8]"

definition busan :: string where
  "busan = [CHR 0xEB, CHR 0xB6, CHR 0x80, CHR 0xEC, CHR 0x82, CHR 0xB0]"

definition region_table :: "(string \<times> string) list" where
  "region_table =
    [(seoul, ''Seoul''),
     (busan, ''Busan''),
     ([CHR 0xEB, CHR 0x8C, CHR 0x80, CHR 0xEA, CHR 0xB5, CHR 0xAC], ''Daegu''),
     ([CHR 0xEC, CHR 0x9D, CHR 0xB8, CHR 0xEC, CHR 0xB2, CHR 0x9C], ''Incheon''),
     ([CHR 0xEA, CHR 0xB4, CHR 0x91, CHR 0xEC, CHR 0xA3, CHR 0xBC], ''Gwangju''),
     ([CHR 0xEB, CHR 0x8C, CHR 0x80, CHR 0xEC, CHR 0xA0, CHR 0x84], ''Daejeon''),
     ([CHR 0xEC, CHR 0x9A, CHR 0xB8, CHR 0xEC, CHR 0x82, CHR 0xB0], ''Ulsan''),
     (sejong, ''Sejong''),
     ([CHR 0xEA, CHR 0xB2, CHR 0xBD, CHR 0xEA, CHR 0xB8, CHR 0xB0], ''Gyeonggi''),
     ([CHR 0xEA, CHR 0xB0, CHR 0x95, CHR 0xEC, CHR 0x9B, CHR 0x90], ''Gangwon''),
     ([CHR 0xEC, CHR 0xB6, CHR 0xA9, CHR 0xEB, CHR 0xB6, CHR 0x81], ''Chungbuk''),
     ([CHR 0xEC, CHR 0xB6, CHR 0xA9, CHR 0xEB, CHR 0x82, CHR 0xA8], ''Chungnam''),
     ([CHR 0xEC, CHR 0xA0, CHR 0x84, CHR 0xEB, CHR 0xB6, CHR 0x81], ''Jeonbuk''),
     ([CHR 0xEC, CHR 0xA0, CHR 0x84, CHR 0xEB, CHR 0x82, CHR 0xA8], ''Jeonnam''),
     ([CHR 0xEA, CHR 0xB2, CHR 0xBD, CHR 0xEB, CHR 0xB6, CHR 0x81], ''Gyeongbuk''),
     ([CHR 0xEA, CHR 0xB2, CHR 0xBD, CHR 0xEB, CHR 0x82, CHR 0xA8], ''Gyeongnam''),
     ([CHR 0xEC, CHR 0xA0, CHR 0x9C, CHR 0xEC, CHR 0xA3, CHR 0xBC], ''Jeju''),
     (national, ''National'')]"

definition REGION_KR2EN :: "string \<rightharpoonup> string" where
  "REGION_KR2EN = map_of region_table"

subsection \<open>load\_population\_df\<close>

text \<open>
  The frame given to the model is the one \<open>pd.read_csv\<close> returns. A cell of a column
  that read\_csv left as text is \<open>Str\<close>, a cell of a numeric column is \<open>Num\<close>, an empty
  cell is \<open>Num NaN\<close>. The conversion of one string by \<open>pd.to_numeric\<close> is a parameter
  \<open>conv\<close> of the model (\<open>None\<close> where pandas cannot convert), so that every
  theorem holds for whatever strings pandas accepts as numbers.
\<close>

definition num_cols :: "string list" where
  "num_cols = [col_population, col_births, col_deaths]"

definition replace_dash :: "cell \<Rightarrow> cell" where
  \<comment> \<open>\<open>.replace("-", 0)\<close> on one cell\<close>
  "replace_dash c = (if c = Str ''-'' then Num (IntN 0) else c)"

definition replace_sejong :: "(string \<Rightarrow> cell) \<Rightarrow> (string \<Rightarrow> cell)" where
  \<comment> \<open>the masked assignment: only rows whose region is Sejong are rewritten\<close>
  "replace_sejong r =
     (if r col_region = Str sejong
      then (\<lambda>c. if c \<in> set num_cols then replace_dash (r c) else r c)
      else r)"

definition to_numeric :: "(string \<Rightarrow> number option) \<Rightarrow> cell \<Rightarrow> number" where
  \<comment> \<open>\<open>pd.to_numeric(errors="coerce")\<close> on one value\<close>
  "to_numeric conv c =
     (case c of
        Num n \<Rightarrow> n
      | Str s \<Rightarrow> (case conv s of Some n \<Rightarrow> n | None \<Rightarrow> NaN))"

datatype dtype = Int64 | UInt64 | Float64

definition column_dtype :: "number list \<Rightarrow> dtype" where
  \<comment> \<open>the dtype of a column after \<open>to_numeric\<close>: \<open>int64\<close> when every value is an
      integer of that range, \<open>uint64\<close> when every value is an integer from 0 to
      2^64 - 1, \<open>float64\<close> in every other case\<close>
  "column_dtype ns =
     (if list_all (\<lambda>n. case n of IntN i \<Rightarrow> fits_int64 i | _ \<Rightarrow> False) ns then Int64
      else if list_all (\<lambda>n. case n of IntN i \<Rightarrow> 0 \<le> i \<and> i < 2 ^ 64 | _ \<Rightarrow> False) ns
      then UInt64
      else Float64)"

definition as_dtype :: "dtype \<Rightarrow> number \<Rightarrow> number" where
  \<comment> \<open>a value as its column stores it: an integer of a \<open>float64\<close> column is rounded
      to \<open>float64\<close>\<close>
  "as_dtype t n =
     (case n of
        IntN i \<Rightarrow> if t = Float64 then FloatN (float64 (of_int i)) else IntN i
      | _ \<Rightarrow> n)"

definition fillna0 :: "number \<Rightarrow> number" where
  "fillna0 n = (case n of NaN \<Rightarrow> FloatN 0 | _ \<Rightarrow> n)"

fun astype_int :: "number \<Rightarrow> error + int" where
  \<comment> \<open>\<open>astype(int)\<close>: the result is an \<open>int64\<close>. A \<open>uint64\<close> wraps; a finite float
      out of the range is cast without an error and comes out as -2^63; an infinite one
      is refused\<close>
  "astype_int (IntN i) = Inr (wrap64 i)"
| "astype_int (FloatN q) = Inr (if fits_int64 (trunc q) then trunc q else - (2 ^ 63))"
| "astype_int (InfN b) = Inl IntCastingNaNError"
| "astype_int NaN = Inl IntCastingNaNError"

definition convert_cell ::
  "(string \<Rightarrow> number option) \<Rightarrow> dtype \<Rightarrow> cell \<Rightarrow> error + int" where
  \<comment> \<open>one cell of a column of dtype \<open>t\<close> through
      \<open>to_numeric(errors="coerce")\<close>, \<open>fillna(0)\<close> and \<open>astype(int)\<close>\<close>
  "convert_cell conv t c = astype_int (fillna0 (as_dtype t (to_numeric conv c)))"

definition convert_row ::
  "(string \<Rightarrow> number option) \<Rightarrow> (string \<Rightarrow> dtype) \<Rightarrow> (string \<Rightarrow> cell)
     \<Rightarrow> error + (string \<Rightarrow> cell)" where
  "convert_row conv dt r =
     (case convert_cell conv (dt col_population) (r col_population) of Inl e \<Rightarrow> Inl e | Inr p \<Rightarrow>
       (case convert_cell conv (dt col_births) (r col_births) of Inl e \<Rightarrow> Inl e | Inr b \<Rightarrow>
         (case convert_cell conv (dt col_deaths) (r col_deaths) of Inl e \<Rightarrow> Inl e | Inr d \<Rightarrow>
            Inr (r(col_population := Num (IntN p), col_births := Num (IntN b),
                   col_deaths := Num (IntN d))))))"

fun convert_rows ::
  "(string \<Rightarrow> number option) \<Rightarrow> (string \<Rightarrow> dtype) \<Rightarrow> (string \<Rightarrow> cell) list
     \<Rightarrow> error + (string \<Rightarrow> cell) list" where
  "convert_rows conv dt [] = Inr []"
| "convert_rows conv dt (r # rs) =
     (case convert_row conv dt r of Inl e \<Rightarrow> Inl e | Inr r' \<Rightarrow>
       (case convert_rows conv dt rs of Inl e \<Rightarrow> Inl e | Inr rs' \<Rightarrow> Inr (r' # rs')))"

definition dtypes ::
  "(string \<Rightarrow> number option) \<Rightarrow> (string \<Rightarrow> cell) list \<Rightarrow> string \<Rightarrow> dtype" where
  \<comment> \<open>\<open>to_numeric\<close> is applied to each column as a whole\<close>
  "dtypes conv rs c = column_dtype (map (\<lambda>r. to_numeric conv (r c)) rs)"

definition map_region :: "cell \<Rightarrow> cell" where
  \<comment> \<open>\<open>Series.map(REGION_KR2EN)\<close> on one value: a key absent from the dict gives NaN\<close>
  "map_region c =
     (case c of
        Str s \<Rightarrow> (case REGION_KR2EN s of Some e \<Rightarrow> Str e | None \<Rightarrow> Num NaN)
      | Num n \<Rightarrow> Num NaN)"

definition add_region_en :: "(string \<Rightarrow> cell) \<Rightarrow> (string \<Rightarrow> cell)" where
  "add_region_en r = r(col_region_en := map_region (r col_region))"

definition load_population_df ::
  "(string \<Rightarrow> number option) \<Rightarrow> frame \<Rightarrow> error + frame" where
  "load_population_df conv df =
     (if col_region \<notin> set (columns df) then Inl (KeyError col_region)
      else (case filter (\<lambda>c. c \<notin> set (columns df)) num_cols of
        c # cs \<Rightarrow> Inl (KeyError c)
      | [] \<Rightarrow>
        (case convert_rows conv (dtypes conv (map replace_sejong (rows df)))
                (map replace_sejong (rows df)) of
           Inl e \<Rightarrow> Inl e
         | Inr rs \<Rightarrow>
             Inr \<lparr>columns = (if col_region_en \<in> set (columns df) then columns df
                             else columns df @ [col_region_en]),
                  rows = map add_region_en rs\<rparr>)))"



text \<open>
  A conversion for the examples: signed decimal integer literals, nothing else.
\<close>

definition is_digit :: "char \<Rightarrow> bool" where
  "is_digit c = (CHR ''0'' \<le> c \<and> c \<le> CHR ''9'')"

definition digits_value :: "string \<Rightarrow> int" where
  "digits_value s = foldl (\<lambda>a c. 10 * a + (int (of_char c) - 48)) 0 s"

definition all_digits :: "string \<Rightarrow> bool" where
  "all_digits s = (s \<noteq> [] \<and> list_all is_digit s)"

definition decimal_literal :: "string \<Rightarrow> number option" where
  "decimal_literal s =
     (case s of
        [] \<Rightarrow> None
      | c # cs \<Rightarrow>
          if c = CHR ''-'' then (if all_digits cs then Some (IntN (- digits_value cs)) else None)
          else if all_digits s then Some (IntN (digits_value s)) else None)"





definition non_numeric :: "(string \<Rightarrow> number option) \<Rightarrow> cell \<Rightarrow> bool" where
  \<comment> \<open>a cell that holds no number: text that does not convert, or a missing value\<close>
  "non_numeric conv c = (case c of Str s \<Rightarrow> conv s = None | Num n \<Rightarrow> n = NaN)"

definition infinite_cell :: "(string \<Rightarrow> number option) \<Rightarrow> cell \<Rightarrow> bool" where
  "infinite_cell conv c = (case to_numeric conv c of InfN b \<Rightarrow> True | _ \<Rightarrow> False)"

subsection \<open>The loaded table, row by row\<close>

text \<open>
  The forecaster and the views read the loaded frame by column. They are modelled on its
  rows, for a frame whose region cells are text and whose year column is \<open>int64\<close>:
  \<open>records_of\<close> reads such a frame, and is undefined on any other. The numeric
  fields of a row are \<open>int64\<close> values.
\<close>

record row =
  region :: string
  year :: int
  population :: int
  births :: int
  deaths :: int
  region_en :: "string option"






subsection \<open>predict\_pop\_2035\<close>

definition tail :: "nat \<Rightarrow> 'a list \<Rightarrow> 'a list" where
  \<comment> \<open>\<open>.tail(n)\<close>: the last n rows, all of them when there are fewer\<close>
  "tail n xs = drop (length xs - n) xs"

definition mean :: "int list \<Rightarrow> real option" where
  \<comment> \<open>\<open>Series.mean()\<close> of an \<open>int64\<close> series: the values are added up and the sum
      divided by the count in \<open>float64\<close>; \<open>None\<close> is the NaN of an empty series\<close>
  "mean xs =
     (if xs = [] then None
      else Some (float64 (foldl (\<lambda>a x. float64 (a + float64 (of_int x))) 0 xs
                           / real (length xs))))"

definition iat_last :: "'a list \<Rightarrow> error + 'a" where
  \<comment> \<open>\<open>.iat[-1]\<close>\<close>
  "iat_last xs = (if xs = [] then Inl IndexError else Inr (last xs))"

definition predict_pop_2035 :: "row list \<Rightarrow> error + int" where
  \<comment> \<open>\<open>int(mean)\<close> is a Python integer and raises on NaN; the other operations are on
      \<open>int64\<close> values and wrap; a Python integer that is no \<open>int64\<close> cannot be
      multiplied with one\<close>
  "predict_pop_2035 nat_df =
     (let recent = tail 3 nat_df in
      case mean (map (\<lambda>r. wrap64 (births r - deaths r)) recent) of
        None \<Rightarrow> Inl ValueError
      | Some m \<Rightarrow>
          (let delta = trunc m in
           case iat_last (map year recent) of
             Inl e \<Rightarrow> Inl e
           | Inr y \<Rightarrow>
               (let years_left = wrap64 (2035 - y) in
                case iat_last (map population nat_df) of
                  Inl e \<Rightarrow> Inl e
                | Inr p \<Rightarrow>
                    if fits_int64 delta then Inr (wrap64 (p + wrap64 (delta * years_left)))
                    else Inl OverflowError)))"

text \<open>
  The forecast as the specification words it: the mean of births minus deaths over the last
  three records, truncated to an integer, times the years left to 2035, added to the last
  population. The truncated mean is written with integer division of the magnitudes.
\<close>

definition last_records :: "nat \<Rightarrow> 'a list \<Rightarrow> 'a list" where
  "last_records n xs = rev (take n (rev xs))"

definition truncated_mean :: "int list \<Rightarrow> int" where
  "truncated_mean xs = sgn (sum_list xs) * (\<bar>sum_list xs\<bar> div int (length xs))"

definition forecast_2035 :: "row list \<Rightarrow> int" where
  "forecast_2035 recs =
     population (last recs)
       + truncated_mean (map (\<lambda>r. births r - deaths r) (last_records 3 recs))
           * (2035 - year (last recs))"

subsection \<open>Series: sorting by value, arithmetic with index alignment\<close>

definition value_ge :: "int option \<Rightarrow> int option \<Rightarrow> bool" where
  \<comment> \<open>descending order of values, an undefined value (NaN) after every number\<close>
  "value_ge a b =
     (case b of None \<Rightarrow> True | Some y \<Rightarrow> (case a of None \<Rightarrow> False | Some x \<Rightarrow> y \<le> x))"

text \<open>
  Sorting is modelled by a stable sort. The order pandas gives to entries of equal value
  depends on its sorting algorithm; no property below depends on that order.
\<close>

definition sort_values_desc :: "('a \<times> int option) list \<Rightarrow> ('a \<times> int option) list" where
  \<comment> \<open>\<open>sort_values(ascending=False)\<close>, NaN last\<close>
  "sort_values_desc s =
     sort_key (\<lambda>p. - the (snd p)) (filter (\<lambda>p. snd p \<noteq> None) s)
       @ filter (\<lambda>p. snd p = None) s"

definition combine :: "int option \<Rightarrow> int option \<Rightarrow> int option" where
  \<comment> \<open>the difference of two aligned values, NaN when either is missing\<close>
  "combine a b = (case (a, b) of (Some x, Some y) \<Rightarrow> Some (x - y) | _ \<Rightarrow> None)"

definition lookup_all :: "'k \<Rightarrow> ('k \<times> 'v) list \<Rightarrow> 'v list" where
  "lookup_all k s = map snd (filter (\<lambda>p. fst p = k) s)"

definition join_label ::
  "'k \<Rightarrow> ('k \<times> int) list \<Rightarrow> ('k \<times> int) list \<Rightarrow> ('k \<times> int option \<times> int option) list" where
  \<comment> \<open>the rows of an outer join under one label: the values of both sides, NaN for the
      side that has none\<close>
  "join_label k l r =
     (let xs = lookup_all k l; ys = lookup_all k r in
      if xs = [] then map (\<lambda>y. (k, None, Some y)) ys
      else if ys = [] then map (\<lambda>x. (k, Some x, None)) xs
      else concat (map (\<lambda>x. map (\<lambda>y. (k, Some x, Some y)) ys) xs))"

definition align ::
  "('k::linorder \<times> int) list \<Rightarrow> ('k \<times> int) list \<Rightarrow> ('k \<times> int option \<times> int option) list" where
  \<comment> \<open>both series on one index: position by position when the indexes are equal, else
      on the outer join of the labels\<close>
  "align l r =
     (if map fst l = map fst r
      then map (\<lambda>(p, q). (fst p, Some (snd p), Some (snd q))) (zip l r)
      else concat (map (\<lambda>k. join_label k l r) (sort (remdups (map fst l @ map fst r)))))"

definition series_sub ::
  "('k::linorder \<times> int) list \<Rightarrow> ('k \<times> int) list \<Rightarrow> ('k \<times> int option) list" where
  \<comment> \<open>\<open>l - r\<close>: when the alignment leaves a NaN on either side the values become
      \<open>float64\<close> and the subtraction rounds, otherwise it is on \<open>int64\<close> and wraps\<close>
  "series_sub l r =
     (let a = align l r;
          as_float = list_ex (\<lambda>e. fst (snd e) = None \<or> snd (snd e) = None) a
      in map (\<lambda>e. (fst e,
                 case snd e of
                   (Some x, Some y) \<Rightarrow> Some (if as_float then float_sub x y else wrap64 (x - y))
                 | _ \<Rightarrow> None)) a)"

definition drop_label :: "string \<Rightarrow> (string \<times> 'v) list \<Rightarrow> error + (string \<times> 'v) list" where
  \<comment> \<open>\<open>Series.drop(label)\<close>: a label that is not in the index raises\<close>
  "drop_label k s =
     (if k \<in> set (map fst s) then Inr (filter (\<lambda>p. fst p \<noteq> k) s)
      else Inl (KeyError k))"

subsection \<open>Tab 3: the five-year regional delta\<close>

fun max_list :: "int list \<Rightarrow> int option" where
  \<comment> \<open>\<open>Series.max()\<close>; \<open>None\<close> is the NaN of an empty series\<close>
  "max_list [] = None"
| "max_list (x # xs) = (case max_list xs of None \<Rightarrow> Some x | Some m \<Rightarrow> Some (max x m))"

definition rows_of_year :: "int option \<Rightarrow> row list \<Rightarrow> (string \<times> int) list" where
  \<comment> \<open>\<open>df[df[year] == y].set_index(region)[population]\<close>; no year equals NaN\<close>
  "rows_of_year y df =
     (case y of
        None \<Rightarrow> []
      | Some v \<Rightarrow> map (\<lambda>r. (region r, population r)) (filter (\<lambda>r. year r = v) df))"

fun region_names :: "string list \<Rightarrow> error + string list" where
  \<comment> \<open>\<open>[REGION_KR2EN[k] for k in delta.index]\<close>\<close>
  "region_names [] = Inr []"
| "region_names (k # ks) =
     (case REGION_KR2EN k of
        None \<Rightarrow> Inl (KeyError k)
      | Some e \<Rightarrow> (case region_names ks of Inl err \<Rightarrow> Inl err | Inr es \<Rightarrow> Inr (e # es)))"

record delta_view =
  delta :: "(string \<times> int option) list"
  bar_labels :: "string list"
  rising :: "string list"
  declining :: "string list"

definition regional_delta :: "row list \<Rightarrow> error + delta_view" where
  "regional_delta df =
     (let last_year = max_list (map year df);
          base_year = map_option (\<lambda>y. y - 4) last_year
      in case drop_label national
                (series_sub (rows_of_year last_year df) (rows_of_year base_year df)) of
           Inl e \<Rightarrow> Inl e
         | Inr d \<Rightarrow>
             (let delta = sort_values_desc d in
              case region_names (map fst delta) of
                Inl e \<Rightarrow> Inl e
              | Inr names \<Rightarrow>
                  Inr \<lparr>delta = delta, bar_labels = names,
                       rising = map fst (take 3 delta),
                       declining = map fst (tail 3 delta)\<rparr>))"

text \<open>The population of a region in a year, as the specification reads it off the table.\<close>

definition population_at :: "row list \<Rightarrow> string \<Rightarrow> int \<Rightarrow> int option" where
  "population_at df g y =
     (case filter (\<lambda>r. region r = g \<and> year r = y) df of
        [] \<Rightarrow> None
      | r # rs \<Rightarrow> Some (population r))"

definition delta_of :: "row list \<Rightarrow> int \<Rightarrow> string \<Rightarrow> int option" where
  "delta_of df y g =
     (case (population_at df g y, population_at df g (y - 4)) of
        (Some a, Some b) \<Rightarrow> Some (a - b)
      | _ \<Rightarrow> None)"

subsection \<open>Tab 4: the largest year-over-year differences\<close>

fun groupby_diff :: "(string \<rightharpoonup> int) \<Rightarrow> row list \<Rightarrow> (row \<times> int option) list" where
  \<comment> \<open>\<open>groupby(region)[population].diff()\<close>: each row against the row before it in its
      group, in \<open>float64\<close>; \<open>prev\<close> holds the last population seen of each group\<close>
  "groupby_diff prev [] = []"
| "groupby_diff prev (r # rs) =
     (r, map_option (\<lambda>p. float_sub (population r) p) (prev (region r)))
       # groupby_diff (prev(region r \<mapsto> population r)) rs"

definition diff_df :: "row list \<Rightarrow> (row \<times> int option) list" where
  "diff_df df =
     filter (\<lambda>p. region (fst p) \<noteq> national)
       (groupby_diff Map.empty (sort_key (\<lambda>r. (region r, year r)) df))"

definition nlargest :: "nat \<Rightarrow> ('a \<times> int option) list \<Rightarrow> ('a \<times> int option) list" where
  \<comment> \<open>\<open>DataFrame.nlargest(n, col)\<close>: the rows in descending order of the column, the rows
      whose value is NaN after the others, cut after n rows\<close>
  "nlargest n xs = take n (sort_values_desc xs)"

definition top100 :: "row list \<Rightarrow> (row \<times> int option) list" where
  "top100 df = nlargest 100 (diff_df df)"

text \<open>
  The difference as the specification reads it: in the table sorted by region and year, each
  row against the row just before it when both are of one region; the first row of a
  region has none.
\<close>

fun adjacent_diff :: "row option \<Rightarrow> row list \<Rightarrow> (row \<times> int option) list" where
  "adjacent_diff p [] = []"
| "adjacent_diff p (r # rs) =
     (r, case p of
           None \<Rightarrow> None
         | Some q \<Rightarrow> if region q = region r then Some (population r - population q) else None)
       # adjacent_diff (Some r) rs"

subsection \<open>Tab 5: the pivoted tables\<close>





subsection \<open>The method: the tabs in their order\<close>

text \<open>
  \<open>population_trend_eda\<close> fills its tabs one after the other and catches no exception:
  the forecast of tab 2 is computed before the delta of tab 3, and the table of tab 4
  after both. A tab that raises ends the method, so the later tabs compute nothing. The
  model returns what the tabs 2 to 4 have computed when the method ends, and the
  exception if one ended it.

  Tab 4 hands its table to \<open>st.dataframe\<close> with the format \<open>{:,+}\<close> for the column of the
  differences. Python accepts the sign of a format only before the comma, and refuses
  this one for every number, so rendering a table that has a row raises a ValueError.
  The table itself is computed before that. Tab 5 follows tab 4; its two pivots are the
  functions \<open>heatmap_pivot\<close> and \<open>area_pivot\<close> above.
\<close>

record views =
  forecast :: "int option"
  regional :: "delta_view option"
  top_diffs :: "(row \<times> int option) list option"
  raised :: "error option"

definition national_rows :: "row list \<Rightarrow> row list" where
  \<comment> \<open>\<open>df[df[region] == national].sort_values(year)\<close>\<close>
  "national_rows df = sort_key year (filter (\<lambda>r. region r = national) df)"

definition styled_cells :: "(row \<times> int option) list \<Rightarrow> error option" where
  \<comment> \<open>rendering the styled table: each cell of the diff column goes through
      \<open>"{:,+}".format\<close>, which raises whatever the number is\<close>
  "styled_cells t = (if t = [] then None else Some ValueError)"

definition population_trend_eda :: "row list \<Rightarrow> views" where
  "population_trend_eda df =
     (case predict_pop_2035 (national_rows df) of
        Inl e \<Rightarrow> \<lparr>forecast = None, regional = None, top_diffs = None, raised = Some e\<rparr>
      | Inr f \<Rightarrow>
          (case regional_delta df of
             Inl e \<Rightarrow> \<lparr>forecast = Some f, regional = None, top_diffs = None, raised = Some e\<rparr>
           | Inr d \<Rightarrow>
               \<lparr>forecast = Some f, regional = Some d, top_diffs = Some (top100 df),
                raised = styled_cells (top100 df)\<rparr>))"

subsection \<open>Example tables\<close>

definition row_of :: "cell \<Rightarrow> cell \<Rightarrow> cell \<Rightarrow> cell \<Rightarrow> cell \<Rightarrow> (string \<Rightarrow> cell)" where
  "row_of g y p b d =
     (\<lambda>c. Num NaN)(col_region := g, col_year := y, col_population := p,
                    col_births := b, col_deaths := d)"

definition rec_of :: "string \<Rightarrow> int \<Rightarrow> int \<Rightarrow> int \<Rightarrow> int \<Rightarrow> row" where
  "rec_of g y p b d =
     \<lparr>region = g, year = y, population = p, births = b, deaths = d,
      region_en = REGION_KR2EN g\<rparr>"

definition frame_dash :: frame where
  "frame_dash =
     \<lparr>columns = [col_year, col_region, col_population, col_births, col_deaths],
      rows = [row_of (Str national) (Num (IntN 2020)) (Str ''-'') (Str ''-'') (Str ''-''),
              row_of (Str seoul) (Num (IntN 2020)) (Str ''-5'') (Str ''12'') (Num (FloatN (7/2)))]\<rparr>"

definition frame_no_year :: frame where
  "frame_no_year =
     \<lparr>columns = [col_region, col_population, col_births, col_deaths],
      rows = [row_of (Str seoul) (Num NaN) (Num (IntN 10)) (Num (IntN 2)) (Num (IntN 1))]\<rparr>"

definition frame_no_population :: frame where
  "frame_no_population =
     \<lparr>columns = [col_year, col_region, col_births, col_deaths],
      rows = [row_of (Str seoul) (Num (IntN 2020)) (Num NaN) (Num (IntN 2)) (Num (IntN 1))]\<rparr>"


definition nat_two_records :: "row list" where
  "nat_two_records = [rec_of national 2021 105 10 13, rec_of national 2022 100 11 15]"

definition table_A_B :: "row list" where
  "table_A_B =
     [rec_of ''A'' 2018 50 0 0, rec_of ''B'' 2018 90 0 0,
      rec_of ''A'' 2022 80 0 0, rec_of ''B'' 2022 70 0 0]"

definition table_seoul_busan :: "row list" where
  "table_seoul_busan =
     [rec_of seoul 2018 50 0 0, rec_of busan 2018 90 0 0, rec_of national 2018 140 0 0,
      rec_of seoul 2022 80 0 0, rec_of busan 2022 70 0 0, rec_of national 2022 150 0 0]"

definition table_two_years :: "row list" where
  "table_two_years = [rec_of seoul 2020 10 0 0, rec_of seoul 2021 15 0 0]"

definition table_long :: "row list" where
  "table_long =
     [rec_of national 2100 500 0 0, rec_of national 2101 500 0 0]
       @ map (\<lambda>i. rec_of seoul (2000 + int i) (1000 + 2 * int i) 0 0) [0..<102]"



definition frame_huge :: frame where
  "frame_huge =
     \<lparr>columns = [col_year, col_region, col_population, col_births, col_deaths],
      rows = [row_of (Str seoul) (Num (IntN 2020)) (Num (FloatN (10 ^ 30)))
                (Num (IntN 1)) (Num (IntN 1))]\<rparr>"

definition frame_rounded :: frame where
  "frame_rounded =
     \<lparr>columns = [col_year, col_region, col_population, col_births, col_deaths],
      rows = [row_of (Str seoul) (Num (IntN 2020)) (Str ''9007199254740993'')
                (Num (IntN 1)) (Num (IntN 1)),
              row_of (Str seoul) (Num (IntN 2021)) (Str ''9223372036854775807'')
                (Num (IntN 1)) (Num (IntN 1)),
              row_of (Str busan) (Num (IntN 2021)) (Str ''-'')
                (Num (IntN 1)) (Num (IntN 1))]\<rparr>"

definition nat_overflow :: "row list" where
  "nat_overflow = [rec_of national 2034 (2 ^ 63 - 1) 1 0]"

definition nat_rounding :: "row list" where
  "nat_rounding = [rec_of national 2034 0 (2 ^ 53 + 1) 0]"

definition table_national_2020 :: "row list" where
  "table_national_2020 =
     [rec_of seoul 2018 50 0 0, rec_of busan 2018 90 0 0, rec_of national 2020 145 0 0,
      rec_of seoul 2022 80 0 0, rec_of busan 2022 70 0 0]"

definition table_top :: "row list" where
  "table_top =
     [rec_of national 2020 100 9 8, rec_of national 2021 102 9 8,
      rec_of seoul 2020 10 0 0, rec_of seoul 2021 15 0 0]"



section \<open>Properties\<close>

subsection \<open>Machine numbers\<close>

lemma wrap64_id: "fits_int64 i \<Longrightarrow> wrap64 i = i"
  by (simp add: fits_int64_def wrap64_def)

lemma fits_wrap64: "fits_int64 (wrap64 i)"
proof -
  have "0 \<le> (i + 2 ^ 63) mod (2 ^ 64 :: int)" and "(i + 2 ^ 63) mod (2 ^ 64 :: int) < 2 ^ 64"
    by simp_all
  then show ?thesis by (simp add: fits_int64_def wrap64_def)
qed

lemma pow2_pos: "0 < pow2 e"
  by (simp add: pow2_def)

lemma pow2_powr: "pow2 e = 2 powr (real_of_int e)"
  by (simp add: pow2_def powr_real_of_int inverse_eq_divide)

lemma pow2_add: "pow2 (a + b) = pow2 a * pow2 b"
  by (simp add: pow2_powr powr_add)

lemma pow2_mono: "a \<le> b \<Longrightarrow> pow2 a \<le> pow2 b"
  by (simp add: pow2_powr)

lemma pow2_less_iff: "pow2 a < pow2 b \<longleftrightarrow> a < b"
  by (simp add: pow2_powr)

lemma pow2_nat: "0 \<le> e \<Longrightarrow> pow2 e = 2 ^ nat e"
  by (simp add: pow2_def)

lemma exponent_bounds:
  assumes "x \<noteq> 0"
  shows "pow2 (exponent x) \<le> \<bar>x\<bar> \<and> \<bar>x\<bar> < pow2 (exponent x + 1)"
proof (cases "1 \<le> \<bar>x\<bar>")
  case True
  let ?m = "\<lfloor>\<bar>x\<bar>\<rfloor>"
  have m: "0 < ?m" using True by linarith
  from bitlen_bounds [OF m]
  have lo: "2 ^ nat (bitlen ?m - 1) \<le> ?m" and hi: "?m < 2 ^ nat (bitlen ?m)" by simp_all
  have b: "1 \<le> bitlen ?m" using m by (simp add: bitlen_alt_def)
  have e: "exponent x = bitlen ?m - 1" using True by (simp add: exponent_def)
  have "2 ^ nat (bitlen ?m - 1) = real_of_int (2 ^ nat (bitlen ?m - 1))" by simp
  also have "\<dots> \<le> real_of_int ?m"
    using lo by (simp only: of_int_le_iff)
  also have "\<dots> \<le> \<bar>x\<bar>" by simp
  finally have l: "pow2 (exponent x) \<le> \<bar>x\<bar>"
    using b by (simp add: e pow2_nat)
  from hi have hi': "?m + 1 \<le> 2 ^ nat (bitlen ?m)" by simp
  have "\<bar>x\<bar> < real_of_int (?m + 1)" by linarith
  also have "\<dots> \<le> real_of_int (2 ^ nat (bitlen ?m))"
    using hi' by (simp only: of_int_le_iff)
  also have "\<dots> = 2 ^ nat (bitlen ?m)" by simp
  finally have "\<bar>x\<bar> < pow2 (exponent x + 1)"
    using b by (simp add: e pow2_nat)
  with l show ?thesis by simp
next
  case False
  then have x1: "\<bar>x\<bar> < 1" by simp
  have x0: "0 < \<bar>x\<bar>" using assms by simp
  let ?y = "1 / \<bar>x\<bar>"
  let ?m = "\<lceil>?y\<rceil> - 1"
  have y1: "1 < ?y" using x0 x1 by simp
  then have m: "0 < ?m" by linarith
  from bitlen_bounds [OF m]
  have lo: "2 ^ nat (bitlen ?m - 1) \<le> ?m" and hi: "?m < 2 ^ nat (bitlen ?m)" by simp_all
  have b: "1 \<le> bitlen ?m" using m by (simp add: bitlen_alt_def)
  have e: "exponent x = - bitlen ?m" using False by (simp add: exponent_def)
  from hi have hi': "?m + 1 \<le> 2 ^ nat (bitlen ?m)" by simp
  have "?y \<le> real_of_int (?m + 1)" by simp
  also have "\<dots> \<le> real_of_int (2 ^ nat (bitlen ?m))"
    using hi' by (simp only: of_int_le_iff)
  also have "\<dots> = 2 ^ nat (bitlen ?m)" by simp
  finally have "?y \<le> 2 ^ nat (bitlen ?m)" .
  then have "1 \<le> 2 ^ nat (bitlen ?m) * \<bar>x\<bar>"
    using x0 by (simp add: field_simps)
  then have l: "pow2 (exponent x) \<le> \<bar>x\<bar>"
    using b by (simp add: e pow2_def field_simps)
  have "2 ^ nat (bitlen ?m - 1) = real_of_int (2 ^ nat (bitlen ?m - 1))" by simp
  also have "\<dots> \<le> real_of_int ?m"
    using lo by (simp only: of_int_le_iff)
  also have "\<dots> < ?y" by linarith
  finally have "2 ^ nat (bitlen ?m - 1) < ?y" .
  then have h: "2 ^ nat (bitlen ?m - 1) * \<bar>x\<bar> < 1"
    using x0 by (simp add: field_simps)
  have p: "pow2 (exponent x + 1) = 1 / 2 ^ nat (bitlen ?m - 1)"
  proof (cases "bitlen ?m = 1")
    case True
    then show ?thesis by (simp add: e pow2_def)
  next
    case False
    with b have "1 < bitlen ?m" by simp
    then show ?thesis by (simp add: e pow2_def)
  qed
  from h have "\<bar>x\<bar> < 1 / 2 ^ nat (bitlen ?m - 1)" by (simp add: field_simps)
  then have "\<bar>x\<bar> < pow2 (exponent x + 1)" by (simp only: p)
  with l show ?thesis by simp
qed

lemma exponent_less:
  assumes "x \<noteq> 0" and "\<bar>x\<bar> < pow2 k"
  shows "exponent x < k"
proof -
  from exponent_bounds [OF assms(1)] assms(2) have "pow2 (exponent x) < pow2 k" by simp
  then show ?thesis by (simp only: pow2_less_iff)
qed

lemma exponent_ge:
  assumes "pow2 k \<le> \<bar>x\<bar>"
  shows "k \<le> exponent x"
proof -
  have "x \<noteq> 0" using assms pow2_pos [of k] by auto
  from exponent_bounds [OF this] assms have "pow2 k < pow2 (exponent x + 1)" by simp
  then show ?thesis by (simp add: pow2_less_iff)
qed

lemma round_even_int [simp]: "round_even (of_int k) = k"
  by (simp add: round_even_def)

lemma round_even_error: "\<bar>of_int (round_even x) - x\<bar> \<le> 1 / 2"
proof -
  define f where "f = \<lfloor>x\<rfloor>"
  define d where "d = x - of_int f"
  have d: "0 \<le> d" "d < 1" unfolding d_def f_def by linarith+
  have "round_even x
      = (if d < 1 / 2 then f else if 1 / 2 < d then f + 1 else if even f then f else f + 1)"
    by (simp add: round_even_def Let_def f_def d_def)
  then have "(round_even x = f \<and> d \<le> 1 / 2) \<or> (round_even x = f + 1 \<and> 1 / 2 \<le> d)"
    by (auto split: if_splits)
  moreover have "of_int f - x = - d" and "of_int (f + 1) - x = 1 - d"
    by (simp_all add: d_def)
  ultimately show ?thesis using d by (auto simp: abs_if)
qed

lemma float64_error:
  assumes "x \<noteq> 0" and "- 1022 \<le> exponent x"
  shows "\<bar>float64 x - x\<bar> \<le> pow2 (exponent x - 53)"
proof -
  let ?u = "pow2 (exponent x - 52)"
  have u: "0 < ?u" by (rule pow2_pos)
  have f: "float64 x = of_int (round_even (x / ?u)) * ?u"
    using assms by (simp add: float64_def Let_def max_def)
  have "float64 x - x = (of_int (round_even (x / ?u)) - x / ?u) * ?u"
    using u by (simp add: f left_diff_distrib)
  then have "\<bar>float64 x - x\<bar> = \<bar>of_int (round_even (x / ?u)) - x / ?u\<bar> * ?u"
    using u by (simp only: abs_mult abs_of_pos)
  also have "\<dots> \<le> 1 / 2 * ?u"
    using u round_even_error [of "x / ?u"] by (intro mult_right_mono) simp_all
  also have "\<dots> = pow2 (exponent x - 53)"
    using pow2_add [of "exponent x - 53" 1] by (simp add: pow2_def)
  finally show ?thesis .
qed

lemma float64_of_int:
  assumes "\<bar>k\<bar> \<le> 2 ^ 53"
  shows "float64 (of_int k) = of_int k"
proof (cases "k = 0")
  case True
  then show ?thesis by (simp add: float64_def)
next
  case False
  let ?x = "real_of_int k"
  let ?e = "exponent ?x"
  have x: "?x \<noteq> 0" using False by simp
  have "pow2 0 \<le> \<bar>?x\<bar>" using False by (simp add: pow2_def)
  then have e0: "0 \<le> ?e" by (rule exponent_ge)
  then have f: "float64 ?x = of_int (round_even (?x / pow2 (?e - 52))) * pow2 (?e - 52)"
    using x by (simp add: float64_def Let_def max_def)
  have "\<bar>k\<bar> < 2 ^ 54" using assms by simp
  then have "real_of_int \<bar>k\<bar> < real_of_int (2 ^ 54)" by (simp only: of_int_less_iff)
  then have "\<bar>?x\<bar> < pow2 54" by (simp add: pow2_def)
  with x have e54: "?e < 54" by (rule exponent_less)
  show ?thesis
  proof (cases "?e \<le> 52")
    case True
    then have u: "pow2 (?e - 52) = 1 / 2 ^ nat (52 - ?e)"
      by (cases "?e = 52") (simp_all add: pow2_def)
    have "?x / pow2 (?e - 52) = of_int (k * 2 ^ nat (52 - ?e))" by (simp add: u)
    then have "round_even (?x / pow2 (?e - 52)) = k * 2 ^ nat (52 - ?e)"
      by (simp only: round_even_int)
    then show ?thesis by (simp add: f u)
  next
    case False
    with e54 have e: "?e = 53" by simp
    from exponent_bounds [OF x] have "pow2 53 \<le> \<bar>?x\<bar>" by (simp add: e)
    then have "real_of_int (2 ^ 53) \<le> real_of_int \<bar>k\<bar>" by (simp add: pow2_def)
    then have "2 ^ 53 \<le> \<bar>k\<bar>" by (simp only: of_int_le_iff)
    with assms have "\<bar>k\<bar> = 2 ^ 53" by simp
    then have k: "k = 2 ^ 53 \<or> k = - (2 ^ 53)" by linarith
    have u: "pow2 (?e - 52) = 2" by (simp add: e pow2_def)
    from k have "?x / 2 = of_int (k div 2)" by auto
    then have "round_even (?x / 2) = k div 2" by (simp only: round_even_int)
    with k show ?thesis by (auto simp: f u)
  qed
qed

lemma float_sub_exact:
  assumes "\<bar>a\<bar> \<le> 2 ^ 52" and "\<bar>b\<bar> \<le> 2 ^ 52"
  shows "float_sub a b = a - b"
proof -
  have a: "float64 (of_int a) = of_int a" and b: "float64 (of_int b) = of_int b"
    using assms by (simp_all add: float64_of_int)
  have "\<bar>a - b\<bar> \<le> 2 ^ 53" using assms by simp
  then have "float64 (of_int (a - b)) = of_int (a - b)" by (rule float64_of_int)
  then show ?thesis by (simp add: float_sub_def a b)
qed



subsection \<open>The loader\<close>

lemmas label_defs =
  col_region_def col_year_def col_population_def col_births_def col_deaths_def
  col_region_en_def sejong_def national_def seoul_def busan_def

lemmas loader_defs =
  load_population_df_def num_cols_def convert_row_def to_numeric_def
  replace_sejong_def replace_dash_def add_region_en_def map_region_def
  REGION_KR2EN_def region_table_def trunc_def wrap64_def fits_int64_def

lemmas literal_defs =
  decimal_literal_def all_digits_def is_digit_def digits_value_def

lemma col_neq [simp]:
  "col_region \<noteq> col_population" "col_region \<noteq> col_births" "col_region \<noteq> col_deaths"
  "col_population \<noteq> col_births" "col_population \<noteq> col_deaths" "col_births \<noteq> col_deaths"
  "col_region_en \<noteq> col_population" "col_region_en \<noteq> col_births"
  "col_region_en \<noteq> col_deaths" "col_region_en \<noteq> col_region"
  "col_population \<noteq> col_region" "col_births \<noteq> col_region" "col_deaths \<noteq> col_region"
  "col_births \<noteq> col_population" "col_deaths \<noteq> col_population"
  "col_deaths \<noteq> col_births"
  "col_population \<noteq> col_region_en" "col_births \<noteq> col_region_en"
  "col_deaths \<noteq> col_region_en" "col_region \<noteq> col_region_en"
  by (simp_all add: label_defs)

lemma col_year_neq [simp]:
  "col_year \<noteq> col_region" "col_year \<noteq> col_population" "col_year \<noteq> col_births"
  "col_year \<noteq> col_deaths" "col_year \<noteq> col_region_en"
  "col_region \<noteq> col_year" "col_population \<noteq> col_year" "col_births \<noteq> col_year"
  "col_deaths \<noteq> col_year" "col_region_en \<noteq> col_year"
  by (simp_all add: label_defs)

lemma as_dtype_simps [simp]:
  "as_dtype t NaN = NaN" "as_dtype t (InfN b) = InfN b" "as_dtype t (FloatN q) = FloatN q"
  by (simp_all add: as_dtype_def)

lemma convert_NaN [simp]: "astype_int (fillna0 NaN) = Inr 0"
  by (simp add: fillna0_def trunc_def fits_int64_def)

lemma convert_InfN [simp]: "astype_int (fillna0 (InfN b)) = Inl IntCastingNaNError"
  by (simp add: fillna0_def)

lemma convert_FloatN [simp]:
  "astype_int (fillna0 (FloatN q)) = Inr (if fits_int64 (trunc q) then trunc q else - (2 ^ 63))"
  by (simp add: fillna0_def)

lemma trunc_of_int [simp]: "trunc (of_int k) = k"
  by (simp add: trunc_def)

lemma convert_IntN:
  assumes "\<bar>k\<bar> \<le> 2 ^ 53"
  shows "astype_int (fillna0 (as_dtype t (IntN k))) = Inr k"
proof -
  have f: "fits_int64 k" using assms by (simp add: fits_int64_def abs_le_iff)
  show ?thesis
  proof (cases "t = Float64")
    case True
    with f show ?thesis by (simp add: as_dtype_def float64_of_int [OF assms])
  next
    case False
    with f show ?thesis by (simp add: as_dtype_def fillna0_def wrap64_id)
  qed
qed

lemma convert_IntN_total: "\<exists>v. astype_int (fillna0 (as_dtype t (IntN k))) = Inr v \<and> fits_int64 v"
proof (cases "t = Float64")
  case True
  have "fits_int64 (- (2 ^ 63))" by (simp add: fits_int64_def)
  with True show ?thesis by (simp add: as_dtype_def)
next
  case False
  then show ?thesis by (simp add: as_dtype_def fillna0_def fits_wrap64)
qed

lemma convert_cell_total:
  "(infinite_cell conv c \<and> convert_cell conv t c = Inl IntCastingNaNError) \<or>
   (\<not> infinite_cell conv c \<and> (\<exists>v. convert_cell conv t c = Inr v))"
  unfolding convert_cell_def infinite_cell_def
  using convert_IntN_total [of t] by (cases "to_numeric conv c") auto

lemma convert_cell_Inr:
  assumes "convert_cell conv t c = Inr v"
  shows "fits_int64 v \<and> (non_numeric conv c \<longrightarrow> v = 0) \<and>
         (\<forall>k. to_numeric conv c = IntN k \<and> \<bar>k\<bar> \<le> 2 ^ 53 \<longrightarrow> v = k)"
proof (cases "to_numeric conv c")
  case (IntN k)
  have "\<not> non_numeric conv c"
    using IntN by (auto simp: non_numeric_def to_numeric_def split: cell.splits option.splits)
  moreover have "fits_int64 v"
    using assms IntN convert_IntN_total [of t k] by (simp add: convert_cell_def)
  moreover have "v = k" if "\<bar>k\<bar> \<le> 2 ^ 53"
    using assms IntN convert_IntN [OF that, of t] by (simp add: convert_cell_def)
  ultimately show ?thesis using IntN by simp
next
  case (FloatN q)
  with assms have v: "v = (if fits_int64 (trunc q) then trunc q else - (2 ^ 63))"
    by (simp add: convert_cell_def)
  have "\<not> non_numeric conv c"
    using FloatN by (auto simp: non_numeric_def to_numeric_def split: cell.splits option.splits)
  moreover have "fits_int64 v" by (simp add: v fits_int64_def)
  ultimately show ?thesis using FloatN by simp
next
  case (InfN b)
  with assms show ?thesis by (simp add: convert_cell_def)
next
  case NaN
  with assms have "v = 0" by (simp add: convert_cell_def)
  with NaN show ?thesis by (simp add: fits_int64_def)
qed

lemma convert_row_Inl:
  "(\<exists>e. convert_row conv dt r = Inl e) \<longleftrightarrow> (\<exists>c\<in>set num_cols. infinite_cell conv (r c))"
  using convert_cell_total [of conv "r col_population" "dt col_population"]
        convert_cell_total [of conv "r col_births" "dt col_births"]
        convert_cell_total [of conv "r col_deaths" "dt col_deaths"]
  unfolding convert_row_def num_cols_def by auto

lemma convert_row_Inr:
  assumes "convert_row conv dt r = Inr r'"
  shows "\<exists>p b d. convert_cell conv (dt col_population) (r col_population) = Inr p \<and>
                 convert_cell conv (dt col_births) (r col_births) = Inr b \<and>
                 convert_cell conv (dt col_deaths) (r col_deaths) = Inr d \<and>
                 r' = r(col_population := Num (IntN p), col_births := Num (IntN b),
                        col_deaths := Num (IntN d))"
  using assms unfolding convert_row_def by (auto split: sum.splits)

lemma convert_row_cells:
  assumes "convert_row conv dt r = Inr r'" and "c \<in> set num_cols"
  shows "\<exists>v. convert_cell conv (dt c) (r c) = Inr v \<and> r' c = Num (IntN v)"
  using convert_row_Inr [OF assms(1)] assms(2) unfolding num_cols_def by auto

lemma convert_rows_Inl:
  "(\<exists>e. convert_rows conv dt rs = Inl e) \<longleftrightarrow> (\<exists>r\<in>set rs. \<exists>e. convert_row conv dt r = Inl e)"
  by (induction rs) (auto split: sum.splits)

lemma convert_rows_Inr:
  "convert_rows conv dt rs = Inr rs' \<Longrightarrow>
   list_all2 (\<lambda>r r'. convert_row conv dt r = Inr r') rs rs'"
  by (induction rs arbitrary: rs') (auto split: sum.splits)

lemma infinite_cell_replace:
  "infinite_cell conv (replace_sejong r c) \<Longrightarrow> infinite_cell conv (r c)"
  unfolding replace_sejong_def replace_dash_def infinite_cell_def to_numeric_def
  by (auto split: if_splits)

lemma convert_zero: "convert_cell conv t (Num (IntN 0)) = Inr 0"
  using convert_IntN [of 0 t] by (simp add: convert_cell_def to_numeric_def)

lemma non_numeric_replace:
  assumes "non_numeric conv (r c)" and "c \<in> set num_cols"
  shows "convert_cell conv t (replace_sejong r c) = Inr 0"
proof (cases "replace_sejong r c = r c")
  case True
  have "to_numeric conv (r c) = NaN"
    using assms(1) by (auto simp: non_numeric_def to_numeric_def split: cell.splits)
  with True show ?thesis by (simp add: convert_cell_def)
next
  case False
  then have "replace_sejong r c = Num (IntN 0)"
    unfolding replace_sejong_def replace_dash_def by (auto split: if_splits)
  then show ?thesis by (simp add: convert_zero)
qed

lemma replaced_cell:
  assumes a: "convert_cell conv t (replace_sejong r c) = Inr v"
  shows "fits_int64 v \<and>
         (\<forall>k. r c \<noteq> Str ''-'' \<and> to_numeric conv (r c) = IntN k \<and> \<bar>k\<bar> \<le> 2 ^ 53 \<longrightarrow> v = k)"
proof (cases "replace_sejong r c = r c")
  case True
  with a show ?thesis using convert_cell_Inr [of conv t "r c" v] by simp
next
  case False
  then have "replace_sejong r c = Num (IntN 0)" and "r c = Str ''-''"
    unfolding replace_sejong_def replace_dash_def by (auto split: if_splits)
  with a have "v = 0" by (simp add: convert_zero)
  with \<open>r c = Str ''-''\<close> show ?thesis by (simp add: fits_int64_def)
qed

lemma load_Inl:
  "(\<exists>e. load_population_df conv df = Inl e) \<longleftrightarrow>
     (col_region \<notin> set (columns df) \<or> col_population \<notin> set (columns df) \<or>
      col_births \<notin> set (columns df) \<or> col_deaths \<notin> set (columns df) \<or>
      (\<exists>r\<in>set (rows df). \<exists>c\<in>set num_cols. infinite_cell conv (replace_sejong r c)))"
proof (cases "col_region \<in> set (columns df) \<and> col_population \<in> set (columns df) \<and>
      col_births \<in> set (columns df) \<and> col_deaths \<in> set (columns df)")
  case True
  then have f: "filter (\<lambda>c. c \<notin> set (columns df)) num_cols = []"
    by (simp add: num_cols_def)
  have "(\<exists>e. load_population_df conv df = Inl e) \<longleftrightarrow>
        (\<exists>e. convert_rows conv (dtypes conv (map replace_sejong (rows df)))
               (map replace_sejong (rows df)) = Inl e)"
    using True f by (simp add: load_population_df_def split: sum.splits)
  also have "\<dots> \<longleftrightarrow>
      (\<exists>r\<in>set (rows df). \<exists>c\<in>set num_cols. infinite_cell conv (replace_sejong r c))"
    by (simp add: convert_rows_Inl convert_row_Inl)
  finally show ?thesis using True by simp
next
  case False
  then have "col_region \<notin> set (columns df) \<or>
             filter (\<lambda>c. c \<notin> set (columns df)) num_cols \<noteq> []"
    by (auto simp: num_cols_def)
  then have "\<exists>e. load_population_df conv df = Inl e"
    by (auto simp: load_population_df_def split: list.splits)
  then show ?thesis using False by blast
qed

lemma load_Inr:
  assumes "load_population_df conv df = Inr df'"
  shows "\<exists>dt. list_all2
           (\<lambda>r r'. \<exists>r''. convert_row conv dt (replace_sejong r) = Inr r'' \<and> r' = add_region_en r'')
           (rows df) (rows df')"
proof -
  let ?dt = "dtypes conv (map replace_sejong (rows df))"
  from assms obtain rs where rs: "convert_rows conv ?dt (map replace_sejong (rows df)) = Inr rs"
    and df': "rows df' = map add_region_en rs"
    by (auto simp: load_population_df_def split: if_splits list.splits sum.splits)
  from convert_rows_Inr [OF rs]
  have "list_all2 (\<lambda>r r''. convert_row conv ?dt (replace_sejong r) = Inr r'') (rows df) rs"
    by (simp add: list_all2_map1)
  then have "list_all2
           (\<lambda>r r'. \<exists>r''. convert_row conv ?dt (replace_sejong r) = Inr r'' \<and> r' = add_region_en r'')
           (rows df) (rows df')"
    unfolding df' list_all2_map2 by (rule list_all2_mono) auto
  then show ?thesis by blast
qed

lemma load_length:
  assumes "load_population_df conv df = Inr df'"
  shows "length (rows df') = length (rows df)"
  using load_Inr [OF assms] by (auto simp: list_all2_lengthD)

lemma load_cell:
  assumes "load_population_df conv df = Inr df'"
    and "i < length (rows df)" and "c \<in> set num_cols"
  shows "\<exists>t v. convert_cell conv t (replace_sejong (rows df ! i) c) = Inr v \<and>
             (rows df' ! i) c = Num (IntN v)"
proof -
  from load_Inr [OF assms(1)] assms(2)
  obtain dt r'' where r'': "convert_row conv dt (replace_sejong (rows df ! i)) = Inr r''"
    and eq: "rows df' ! i = add_region_en r''"
    by (auto simp: list_all2_conv_all_nth)
  from convert_row_cells [OF r'' assms(3)]
  obtain v where "convert_cell conv (dt c) (replace_sejong (rows df ! i) c) = Inr v"
    "r'' c = Num (IntN v)"
    by blast
  moreover have "c \<noteq> col_region_en" using assms(3) by (auto simp: num_cols_def)
  ultimately show ?thesis using eq by (auto simp: add_region_en_def)
qed

lemma frame_dash_loads:
  "load_population_df decimal_literal frame_dash =
     Inr \<lparr>columns = [col_year, col_region, col_population, col_births, col_deaths, col_region_en],
          rows = map add_region_en
            [(rows frame_dash ! 0)(col_population := Num (IntN 0), col_births := Num (IntN 0),
                col_deaths := Num (IntN 0)),
             (rows frame_dash ! 1)(col_population := Num (IntN (- 5)),
                col_births := Num (IntN 12), col_deaths := Num (IntN 3))]\<rparr>"
  by (simp add: load_population_df_def frame_dash_def row_of_def num_cols_def convert_row_def
      convert_cell_def to_numeric_def convert_IntN replace_sejong_def replace_dash_def
      trunc_def wrap64_def fits_int64_def literal_defs label_defs)

lemma frame_huge_loads:
  "load_population_df decimal_literal frame_huge =
     Inr \<lparr>columns = [col_year, col_region, col_population, col_births, col_deaths, col_region_en],
          rows = map add_region_en
            [(rows frame_huge ! 0)(col_population := Num (IntN (- (2 ^ 63))),
                col_births := Num (IntN 1), col_deaths := Num (IntN 1))]\<rparr>"
  by (simp add: load_population_df_def frame_huge_def row_of_def num_cols_def convert_row_def
      convert_cell_def to_numeric_def convert_IntN replace_sejong_def replace_dash_def
      trunc_def wrap64_def fits_int64_def literal_defs label_defs)

text \<open>
  The dtype of the column decides how an integer is stored. In a column with a cell that
  does not convert every value is a \<open>float64\<close>: 2^53 + 1 is rounded to 2^53, and
  2^63 - 1 to 2^63, which \<open>astype(int)\<close> turns into -2^63.
\<close>

lemma frame_rounded_loads:
  "map (\<lambda>r. r col_population)
       (rows (projr (load_population_df decimal_literal frame_rounded)))
     = [Num (IntN (2 ^ 53)), Num (IntN (- (2 ^ 63))), Num (IntN 0)]"
  by code_simp

text \<open>
  C1 (as amended). Whenever the loader returns a table, every cell of its population,
  births and deaths columns is an integer of the \<open>int64\<close> range; a cell whose original
  value is not a number (text that does not convert, or a missing value) holds exactly 0;
  and a cell other than a dash whose original value is an integer of at most 2^53 in
  magnitude holds that integer. Non-negativity is not enforced: a negative number in the
  file stays negative.
\<close>

theorem load_numeric_columns:
  assumes "load_population_df conv df = Inr df'"
  shows "length (rows df') = length (rows df) \<and>
     (\<forall>i<length (rows df). \<forall>c\<in>set num_cols. \<exists>v. (rows df' ! i) c = Num (IntN v) \<and>
        fits_int64 v \<and>
        (non_numeric conv ((rows df ! i) c) \<longrightarrow> v = 0) \<and>
        (\<forall>k. (rows df ! i) c \<noteq> Str ''-'' \<and> to_numeric conv ((rows df ! i) c) = IntN k \<and>
             \<bar>k\<bar> \<le> 2 ^ 53 \<longrightarrow> v = k))"
proof -
  have len: "length (rows df') = length (rows df)"
    using assms by (rule load_length)
  have "\<exists>v. (rows df' ! i) c = Num (IntN v) \<and> fits_int64 v \<and>
        (non_numeric conv ((rows df ! i) c) \<longrightarrow> v = 0) \<and>
        (\<forall>k. (rows df ! i) c \<noteq> Str ''-'' \<and> to_numeric conv ((rows df ! i) c) = IntN k \<and>
             \<bar>k\<bar> \<le> 2 ^ 53 \<longrightarrow> v = k)"
    if i: "i < length (rows df)" and c: "c \<in> set num_cols" for i c
  proof -
    from load_cell [OF assms i c] obtain t v
      where v: "convert_cell conv t (replace_sejong (rows df ! i) c) = Inr v"
        and out: "(rows df' ! i) c = Num (IntN v)" by blast
    have "non_numeric conv ((rows df ! i) c) \<longrightarrow> v = 0"
      using non_numeric_replace [of conv "rows df ! i" c t] c v by auto
    with replaced_cell [OF v] out show ?thesis by blast
  qed
  with len show ?thesis by blast
qed

theorem load_numeric_columns_witness:
  "\<not> isl (load_population_df decimal_literal frame_dash) \<and>
   length (rows (projr (load_population_df decimal_literal frame_dash))) = 2 \<and>
   non_numeric decimal_literal ((rows frame_dash ! 0) col_births) \<and>
   (rows (projr (load_population_df decimal_literal frame_dash)) ! 0) col_births = Num (IntN 0) \<and>
   (rows frame_dash ! 1) col_population = Str ''-5'' \<and>
   to_numeric decimal_literal ((rows frame_dash ! 1) col_population) = IntN (- 5) \<and>
   (rows (projr (load_population_df decimal_literal frame_dash)) ! 1) col_population
     = Num (IntN (- 5))"
proof -
  let ?out = "projr (load_population_df decimal_literal frame_dash)"
  have h: "load_population_df decimal_literal frame_dash = Inr ?out"
    by (simp add: frame_dash_loads)
  have n: "non_numeric decimal_literal ((rows frame_dash ! 0) col_births)"
    by (simp add: non_numeric_def frame_dash_def row_of_def literal_defs)
  have s: "(rows frame_dash ! 1) col_population = Str ''-5''"
    by (simp add: frame_dash_def row_of_def)
  have k: "to_numeric decimal_literal ((rows frame_dash ! 1) col_population) = IntN (- 5)"
    unfolding s by (simp add: to_numeric_def literal_defs)
  have c: "col_births \<in> set num_cols" "col_population \<in> set num_cols"
    by (simp_all add: num_cols_def)
  have l: "length (rows frame_dash) = 2" by (simp add: frame_dash_def)
  note t = load_numeric_columns [OF h]
  from t l have len: "length (rows ?out) = 2" by simp
  from t l c(1) obtain v where "(rows ?out ! 0) col_births = Num (IntN v)"
    and "non_numeric decimal_literal ((rows frame_dash ! 0) col_births) \<longrightarrow> v = 0"
    by (metis zero_less_numeral)
  with n have zero: "(rows ?out ! 0) col_births = Num (IntN 0)" by simp
  have "(1::nat) < length (rows frame_dash)" by (simp add: l)
  with t c(2) obtain w where w: "(rows ?out ! 1) col_population = Num (IntN w)"
    and "\<forall>k. (rows frame_dash ! 1) col_population \<noteq> Str ''-'' \<and>
           to_numeric decimal_literal ((rows frame_dash ! 1) col_population) = IntN k \<and>
           \<bar>k\<bar> \<le> 2 ^ 53 \<longrightarrow> w = k"
    by blast
  with s k have "w = - 5" by simp
  with w have five: "(rows ?out ! 1) col_population = Num (IntN (- 5))" by simp
  from h have "\<not> isl (load_population_df decimal_literal frame_dash)"
    by (metis sum.disc(2))
  with len n zero s k five show ?thesis by blast
qed

theorem negative_cell_stays_negative:
  "\<not> isl (load_population_df decimal_literal frame_dash) \<and>
   (rows frame_dash ! 1) col_population = Str ''-5'' \<and>
   map (\<lambda>r. r col_population) (rows (projr (load_population_df decimal_literal frame_dash)))
     = [Num (IntN 0), Num (IntN (- 5))]"
  by (simp add: frame_dash_loads add_region_en_def) (simp add: frame_dash_def row_of_def)

text \<open>
  C5. In a file that has the four columns the loader reads and no infinite number in the
  numeric columns, a dash in the population, births or deaths cell of a row of the
  national aggregate does not make the load fail, and the cell holds 0 in the returned
  table. The dash of such a row is not rewritten by the masked replacement, which is for
  Sejong; it becomes 0 because pandas cannot convert it.
\<close>

theorem national_dash_loads_as_zero:
  assumes cols: "set (col_region # num_cols) \<subseteq> set (columns df)"
    and dash: "conv ''-'' = None"
    and fin: "\<forall>r\<in>set (rows df). \<forall>c\<in>set num_cols. \<not> infinite_cell conv (r c)"
  shows "\<exists>df'. load_population_df conv df = Inr df' \<and>
           length (rows df') = length (rows df) \<and>
           (\<forall>i<length (rows df). \<forall>c\<in>set num_cols.
              (rows df ! i) col_region = Str national \<and> (rows df ! i) c = Str ''-''
                \<longrightarrow> (rows df' ! i) c = Num (IntN 0))"
proof -
  have "\<not> (\<exists>e. load_population_df conv df = Inl e)"
    unfolding load_Inl using cols fin by (auto simp: num_cols_def dest: infinite_cell_replace)
  then obtain df' where df': "load_population_df conv df = Inr df'"
    by (cases "load_population_df conv df") auto
  have len: "length (rows df') = length (rows df)"
    using df' by (rule load_length)
  have "(rows df' ! i) c = Num (IntN 0)"
    if i: "i < length (rows df)" and c: "c \<in> set num_cols"
      and d: "(rows df ! i) c = Str ''-''" for i c
  proof -
    have "non_numeric conv ((rows df ! i) c)" using d dash by (simp add: non_numeric_def)
    then have "convert_cell conv t (replace_sejong (rows df ! i) c) = Inr 0" for t
      using c by (rule non_numeric_replace)
    with load_cell [OF df' i c] show ?thesis by auto
  qed
  with df' len show ?thesis by blast
qed

theorem national_dash_loads_as_zero_witness:
  "set (col_region # num_cols) \<subseteq> set (columns frame_dash) \<and>
   decimal_literal ''-'' = None \<and>
   map (\<lambda>c. (rows frame_dash ! 0) c) (col_region # num_cols)
     = [Str national, Str ''-'', Str ''-'', Str ''-''] \<and>
   \<not> isl (load_population_df decimal_literal frame_dash) \<and>
   map (\<lambda>c. (rows (projr (load_population_df decimal_literal frame_dash)) ! 0) c) num_cols
     = [Num (IntN 0), Num (IntN 0), Num (IntN 0)]"
proof -
  have cols: "set (col_region # num_cols) \<subseteq> set (columns frame_dash)"
    by (simp add: frame_dash_def num_cols_def)
  have dash: "decimal_literal ''-'' = None" by (simp add: literal_defs)
  have fin: "\<forall>r\<in>set (rows frame_dash). \<forall>c\<in>set num_cols. \<not> infinite_cell decimal_literal (r c)"
    by (simp add: frame_dash_def row_of_def num_cols_def infinite_cell_def to_numeric_def
        literal_defs)
  have cells: "map (\<lambda>c. (rows frame_dash ! 0) c) (col_region # num_cols)
     = [Str national, Str ''-'', Str ''-'', Str ''-'']"
    by (simp add: frame_dash_def row_of_def num_cols_def)
  from national_dash_loads_as_zero [OF cols dash fin]
  obtain df' where df': "load_population_df decimal_literal frame_dash = Inr df'"
    and z: "\<forall>i<length (rows frame_dash). \<forall>c\<in>set num_cols.
              (rows frame_dash ! i) col_region = Str national \<and> (rows frame_dash ! i) c = Str ''-''
                \<longrightarrow> (rows df' ! i) c = Num (IntN 0)"
    by blast
  have "0 < length (rows frame_dash)" by (simp add: frame_dash_def)
  with z cells have "\<forall>c\<in>set num_cols. (rows df' ! 0) c = Num (IntN 0)"
    by (simp add: num_cols_def)
  then have "map (\<lambda>c. (rows df' ! 0) c) num_cols = [Num (IntN 0), Num (IntN 0), Num (IntN 0)]"
    by (simp add: num_cols_def)
  with cols dash cells df' show ?thesis by simp
qed

text \<open>
  C6 (as amended). For a frame whose numeric columns hold no infinite number, the load
  fails exactly when one of the four columns the loader reads (region, population,
  births, deaths) is missing. The year column is not read by the loader, so a file
  without it loads; text that does not convert and missing values never make the load
  fail.
\<close>

theorem load_fails_iff:
  assumes "\<forall>r\<in>set (rows df). \<forall>c\<in>set num_cols. \<not> infinite_cell conv (r c)"
  shows "(\<exists>e. load_population_df conv df = Inl e) \<longleftrightarrow>
     (col_region \<notin> set (columns df) \<or> col_population \<notin> set (columns df) \<or>
      col_births \<notin> set (columns df) \<or> col_deaths \<notin> set (columns df))"
  unfolding load_Inl using assms by (auto dest: infinite_cell_replace)

theorem load_fails_iff_witness:
  "col_population \<notin> set (columns frame_no_population) \<and>
   (\<exists>e. load_population_df decimal_literal frame_no_population = Inl e)"
proof -
  have "\<forall>r\<in>set (rows frame_no_population). \<forall>c\<in>set num_cols.
          \<not> infinite_cell decimal_literal (r c)"
    by (simp add: frame_no_population_def row_of_def num_cols_def infinite_cell_def
        to_numeric_def)
  from load_fails_iff [OF this] show ?thesis
    by (simp add: frame_no_population_def label_defs)
qed

theorem load_without_year_column:
  "col_year \<notin> set (columns frame_no_year) \<and>
   \<not> isl (load_population_df decimal_literal frame_no_year)"
  by (simp add: load_population_df_def frame_no_year_def row_of_def num_cols_def
      convert_row_def convert_cell_def to_numeric_def convert_IntN replace_sejong_def
      replace_dash_def label_defs)






subsection \<open>The forecaster\<close>


lemma last_tail: "xs \<noteq> [] \<Longrightarrow> 0 < n \<Longrightarrow> last (tail n xs) = last xs"
  by (simp add: tail_def last_drop)

lemma tail_Nil_iff: "0 < n \<Longrightarrow> tail n xs = [] \<longleftrightarrow> xs = []"
  by (cases xs) (auto simp: tail_def)

lemma length_tail: "length (tail n xs) \<le> n"
  by (simp add: tail_def)

lemma trunc_divide:
  assumes "0 < n"
  shows "trunc (real_of_int s / real n) = sgn s * (\<bar>s\<bar> div int n)"
proof (cases "0 \<le> s")
  case True
  then have "0 \<le> real_of_int s / real n" by simp
  then have "trunc (real_of_int s / real n) = \<lfloor>real_of_int s / real_of_int (int n)\<rfloor>"
    by (simp add: trunc_def)
  also have "\<dots> = s div int n" by (rule floor_divide_of_int_eq)
  finally show ?thesis using True by (cases "s = 0") (simp_all add: sgn_if)
next
  case False
  then have neg: "real_of_int s / real n < 0" using assms by (simp add: divide_neg_pos)
  then have "trunc (real_of_int s / real n) = \<lceil>real_of_int s / real n\<rceil>"
    by (simp add: trunc_def)
  also have "\<dots> = - \<lfloor>real_of_int (- s) / real_of_int (int n)\<rfloor>"
    by (simp add: ceiling_def)
  also have "\<dots> = - ((- s) div int n)" by (simp only: floor_divide_of_int_eq)
  finally show ?thesis using False by (simp add: sgn_if)
qed

lemma float_sum_exact:
  assumes "\<forall>x\<in>set xs. \<bar>x\<bar> \<le> 2 ^ 50" and "\<bar>a\<bar> + 2 ^ 50 * int (length xs) \<le> 2 ^ 53"
  shows "foldl (\<lambda>a x. float64 (a + float64 (of_int x))) (of_int a) xs
           = of_int (a + sum_list xs)"
  using assms
proof (induction xs arbitrary: a)
  case Nil
  show ?case by simp
next
  case (Cons x xs)
  have x: "\<bar>x\<bar> \<le> 2 ^ 50" using Cons.prems(1) by simp
  then have fx: "float64 (of_int x) = of_int x" by (intro float64_of_int) simp
  have "\<bar>a + x\<bar> \<le> 2 ^ 53" using x Cons.prems(2) by simp
  then have "float64 (of_int (a + x)) = of_int (a + x)" by (rule float64_of_int)
  then have step: "float64 (of_int a + float64 (of_int x)) = of_int (a + x)"
    by (simp add: fx)
  have "\<bar>a + x\<bar> + 2 ^ 50 * int (length xs) \<le> 2 ^ 53"
    using x Cons.prems(2) by simp
  with Cons.prems(1) have "foldl (\<lambda>a x. float64 (a + float64 (of_int x))) (of_int (a + x)) xs
      = of_int (a + x + sum_list xs)"
    by (intro Cons.IH) simp_all
  then show ?case by (simp add: step add.assoc)
qed

lemma quotient_fraction:
  assumes "0 < n" and "n \<le> 3" and "\<not> int n dvd s"
  shows "real_of_int (s div int n) + 1 / 3 \<le> real_of_int s / real n \<and>
         real_of_int s / real n \<le> real_of_int (s div int n) + 2 / 3"
proof -
  let ?k = "s div int n" and ?r = "s mod int n"
  have "0 \<le> ?r" and "?r < int n" using assms(1) by simp_all
  moreover have "?r \<noteq> 0" using assms(3) by (simp add: dvd_eq_mod_eq_0)
  ultimately have r: "1 \<le> ?r" "?r \<le> int n - 1" by linarith+
  have "s = int n * ?k + ?r" by simp
  then have "real_of_int s = real n * real_of_int ?k + real_of_int ?r"
    by (metis of_int_add of_int_mult of_int_of_nat_eq)
  then have q: "real_of_int s / real n = real_of_int ?k + real_of_int ?r / real n"
    using assms(1) by (simp add: field_simps)
  have "n = 2 \<or> n = 3" using assms r by auto
  then have "1 / 3 \<le> real_of_int ?r / real n \<and> real_of_int ?r / real n \<le> 2 / 3"
    using r by auto
  with q show ?thesis by simp
qed

lemma trunc_float64_quotient:
  assumes n: "0 < n" "n \<le> 3" and s: "\<bar>s\<bar> < 2 ^ 52"
  shows "trunc (float64 (real_of_int s / real n)) = trunc (real_of_int s / real n)"
proof (cases "int n dvd s")
  case True
  then obtain k where k: "s = int n * k" ..
  then have q: "real_of_int s / real n = of_int k" using n by simp
  have "1 * \<bar>k\<bar> \<le> int n * \<bar>k\<bar>" using n by (intro mult_right_mono) simp_all
  then have "\<bar>k\<bar> \<le> \<bar>s\<bar>" using k by (simp add: abs_mult)
  with s have "\<bar>k\<bar> \<le> 2 ^ 53" by simp
  then show ?thesis unfolding q by (simp only: float64_of_int)
next
  case False
  let ?q = "real_of_int s / real n" and ?k = "s div int n"
  from quotient_fraction [OF n False]
  have lo: "real_of_int ?k + 1 / 3 \<le> ?q" and hi: "?q \<le> real_of_int ?k + 2 / 3" by simp_all
  have q0: "?q \<noteq> 0" using False n by auto
  have "\<bar>real_of_int s\<bar> < 2 ^ 52" using s by (metis of_int_abs of_int_less_numeral_power_cancel_iff)
  then have "\<bar>?q\<bar> < 2 ^ 52 / real n" using n by (simp add: divide_strict_right_mono)
  also have "\<dots> \<le> 2 ^ 52" using n by (simp add: field_simps)
  finally have "\<bar>?q\<bar> < pow2 52" by (simp add: pow2_def)
  with q0 have e52: "exponent ?q < 52" by (rule exponent_less)
  have "s \<noteq> 0" using False by auto
  then have "1 \<le> \<bar>s\<bar>" by simp
  then have "real_of_int 1 \<le> real_of_int \<bar>s\<bar>" by (simp only: of_int_le_iff)
  then have "1 \<le> \<bar>real_of_int s\<bar>" by simp
  then have "1 / 3 \<le> \<bar>?q\<bar>" using n by (simp add: field_simps)
  then have "pow2 (- 2) \<le> \<bar>?q\<bar>" by (simp add: pow2_def)
  then have e2: "- 2 \<le> exponent ?q" by (rule exponent_ge)
  then have "\<bar>float64 ?q - ?q\<bar> \<le> pow2 (exponent ?q - 53)"
    using q0 by (intro float64_error) simp_all
  also have "\<dots> \<le> pow2 (- 2)" using e52 by (intro pow2_mono) simp
  finally have err: "\<bar>float64 ?q - ?q\<bar> \<le> 1 / 4" by (simp add: pow2_def)
  have f1: "real_of_int ?k < float64 ?q" and f2: "float64 ?q < real_of_int ?k + 1"
    using err lo hi by linarith+
  have fl: "\<lfloor>float64 ?q\<rfloor> = ?k" and ce: "\<lceil>float64 ?q\<rceil> = ?k + 1"
    using f1 f2 by (simp_all add: floor_eq_iff ceiling_eq_iff)
  have flq: "\<lfloor>?q\<rfloor> = ?k" and ceq: "\<lceil>?q\<rceil> = ?k + 1"
    using lo hi by (simp_all add: floor_eq_iff ceiling_eq_iff)
  show ?thesis
  proof (cases "0 \<le> ?q")
    case True
    then have "0 \<le> ?k" using flq by (metis zero_le_floor)
    then have "0 \<le> float64 ?q" using f1 by simp
    with True show ?thesis by (simp add: trunc_def fl flq)
  next
    case False
    then have "?k < 0" using flq by (metis floor_less_zero not_le)
    then have "float64 ?q < 0" using f2 by simp
    with False show ?thesis by (simp add: trunc_def ce ceq)
  qed
qed

lemma mean_truncated:
  assumes "xs \<noteq> []" and "length xs \<le> 3" and "\<forall>x\<in>set xs. \<bar>x\<bar> \<le> 2 ^ 50"
  shows "\<exists>m. mean xs = Some m \<and> trunc m = truncated_mean xs \<and> \<bar>truncated_mean xs\<bar> < 2 ^ 52"
proof -
  let ?s = "sum_list xs" and ?n = "length xs"
  have n: "0 < ?n" using assms(1) by simp
  have "\<bar>0::int\<bar> + 2 ^ 50 * int ?n \<le> 2 ^ 53" using assms(2) by simp
  with assms(3) have "foldl (\<lambda>a x. float64 (a + float64 (of_int x))) (of_int 0) xs
      = of_int (0 + ?s)"
    by (rule float_sum_exact)
  then have m: "mean xs = Some (float64 (real_of_int ?s / real ?n))"
    using assms(1) by (simp add: mean_def)
  have "\<bar>?s\<bar> \<le> (\<Sum>x\<leftarrow>xs. \<bar>x\<bar>)" by (rule sum_list_abs)
  also have "\<dots> \<le> (\<Sum>x\<leftarrow>xs. 2 ^ 50)" using assms(3) by (intro sum_list_mono) simp
  also have "\<dots> = 2 ^ 50 * int ?n" by (simp add: sum_list_triv)
  also have "\<dots> < 2 ^ 52" using assms(2) by simp
  finally have s: "\<bar>?s\<bar> < 2 ^ 52" .
  have t: "trunc (float64 (real_of_int ?s / real ?n)) = truncated_mean xs"
    using trunc_float64_quotient [OF n assms(2) s] trunc_divide [OF n, of ?s]
    by (simp add: truncated_mean_def)
  have "\<bar>truncated_mean xs\<bar> \<le> \<bar>?s\<bar>"
  proof -
    have "1 \<le> int ?n" using n by linarith
    then have "\<bar>?s\<bar> div int ?n \<le> \<bar>?s\<bar> div 1" by (intro zdiv_mono2) simp_all
    then have "\<bar>?s\<bar> div int ?n \<le> \<bar>?s\<bar>" by simp
    moreover have "0 \<le> \<bar>?s\<bar> div int ?n" using n by (simp add: pos_imp_zdiv_nonneg_iff)
    ultimately show ?thesis by (simp add: truncated_mean_def abs_mult abs_sgn_eq)
  qed
  with s have "\<bar>truncated_mean xs\<bar> < 2 ^ 52" by simp
  with m t show ?thesis by simp
qed

lemma predict_machine:
  assumes "nat_df \<noteq> []"
    and "\<forall>r\<in>set (tail 3 nat_df). \<bar>births r - deaths r\<bar> \<le> 2 ^ 50"
  shows "predict_pop_2035 nat_df =
     Inr (wrap64 (population (last nat_df)
           + wrap64 (truncated_mean (map (\<lambda>r. births r - deaths r) (tail 3 nat_df))
               * wrap64 (2035 - year (last nat_df)))))"
proof -
  let ?recent = "tail 3 nat_df"
  let ?d = "map (\<lambda>r. births r - deaths r) ?recent"
  have ne: "?recent \<noteq> []" using assms(1) by (simp add: tail_Nil_iff)
  have w: "map (\<lambda>r. wrap64 (births r - deaths r)) ?recent = ?d"
  proof (rule map_cong [OF refl])
    fix r assume "r \<in> set ?recent"
    with assms(2) have "\<bar>births r - deaths r\<bar> \<le> 2 ^ 50" by blast
    then have "fits_int64 (births r - deaths r)" by (simp add: fits_int64_def abs_le_iff)
    then show "wrap64 (births r - deaths r) = births r - deaths r" by (rule wrap64_id)
  qed
  have "\<forall>x\<in>set ?d. \<bar>x\<bar> \<le> 2 ^ 50" using assms(2) by simp
  moreover have "?d \<noteq> []" using ne by simp
  moreover have "length ?d \<le> 3" by (simp add: length_tail)
  ultimately obtain m where m: "mean ?d = Some m" and t: "trunc m = truncated_mean ?d"
    and b: "\<bar>truncated_mean ?d\<bar> < 2 ^ 52"
    using mean_truncated [of ?d] by blast
  from b have f: "fits_int64 (trunc m)" by (simp add: t fits_int64_def abs_less_iff)
  have y: "iat_last (map year ?recent) = Inr (year (last nat_df))"
    using ne assms(1) by (simp add: iat_last_def last_map last_tail)
  have p: "iat_last (map population nat_df) = Inr (population (last nat_df))"
    using assms(1) by (simp add: iat_last_def last_map)
  show ?thesis
    unfolding predict_pop_2035_def Let_def w m y p using f by (simp add: t)
qed



lemma predict_pop_2035_wraps:
  "nat_overflow \<noteq> [] \<and>
   map (\<lambda>r. (year r, population r, births r, deaths r)) nat_overflow
     = [(2034, 2 ^ 63 - 1, 1, 0)] \<and>
   forecast_2035 nat_overflow = 2 ^ 63 \<and>
   predict_pop_2035 nat_overflow = Inr (- (2 ^ 63))"
proof -
  have ne: "nat_overflow \<noteq> []" by (simp add: nat_overflow_def)
  have small: "\<forall>r\<in>set (tail 3 nat_overflow). \<bar>births r - deaths r\<bar> \<le> 2 ^ 50"
    by (simp add: tail_def nat_overflow_def rec_of_def)
  from predict_machine [OF ne small]
  have "predict_pop_2035 nat_overflow = Inr (- (2 ^ 63))"
    by (simp add: tail_def nat_overflow_def rec_of_def truncated_mean_def wrap64_def)
  moreover have "forecast_2035 nat_overflow = 2 ^ 63"
    by (simp add: forecast_2035_def truncated_mean_def last_records_def nat_overflow_def
        rec_of_def)
  ultimately show ?thesis by (simp add: nat_overflow_def rec_of_def)
qed

text \<open>
  C8 (as amended). On a national table of one or two records whose arithmetic stays in
  machine range, the mean is taken over all the records there are, and the same
  extrapolation is applied. On a table with no record there is no forecast: the mean of
  nothing is NaN and its conversion to an integer raises.
\<close>

theorem predict_pop_2035_short_history:
  assumes "nat_df \<noteq> []" and "length nat_df < 3"
    and "\<forall>r\<in>set nat_df. \<bar>births r - deaths r\<bar> \<le> 2 ^ 50"
    and "fits_int64 (2035 - year (last nat_df))"
    and "fits_int64 (truncated_mean (map (\<lambda>r. births r - deaths r) nat_df)
                      * (2035 - year (last nat_df)))"
    and "fits_int64 (population (last nat_df)
           + truncated_mean (map (\<lambda>r. births r - deaths r) nat_df)
               * (2035 - year (last nat_df)))"
  shows "predict_pop_2035 nat_df =
     Inr (population (last nat_df)
           + truncated_mean (map (\<lambda>r. births r - deaths r) nat_df)
               * (2035 - year (last nat_df)))"
proof -
  have t: "tail 3 nat_df = nat_df" using assms(2) by (simp add: tail_def)
  then have "\<forall>r\<in>set (tail 3 nat_df). \<bar>births r - deaths r\<bar> \<le> 2 ^ 50"
    using assms(3) by simp
  from predict_machine [OF assms(1) this] assms(4,5,6) show ?thesis
    by (simp add: t wrap64_id)
qed

theorem predict_pop_2035_short_history_witness:
  "nat_two_records \<noteq> [] \<and> length nat_two_records < 3 \<and>
   map (\<lambda>r. births r - deaths r) nat_two_records = [- 3, - 4] \<and>
   predict_pop_2035 nat_two_records = Inr 61"
proof -
  have ne: "nat_two_records \<noteq> []" and len: "length nat_two_records < 3"
    by (simp_all add: nat_two_records_def)
  have small: "\<forall>r\<in>set nat_two_records. \<bar>births r - deaths r\<bar> \<le> 2 ^ 50"
    by (simp add: nat_two_records_def rec_of_def)
  have t: "truncated_mean (map (\<lambda>r. births r - deaths r) nat_two_records) = - 3"
    and y: "year (last nat_two_records) = 2022" and p: "population (last nat_two_records) = 100"
    by (simp_all add: truncated_mean_def nat_two_records_def rec_of_def)
  have "fits_int64 (2035 - year (last nat_two_records))"
    and "fits_int64 (truncated_mean (map (\<lambda>r. births r - deaths r) nat_two_records)
                      * (2035 - year (last nat_two_records)))"
    and "fits_int64 (population (last nat_two_records)
           + truncated_mean (map (\<lambda>r. births r - deaths r) nat_two_records)
               * (2035 - year (last nat_two_records)))"
    by (simp_all add: t y p fits_int64_def)
  from predict_pop_2035_short_history [OF ne len small this] ne len show ?thesis
    by (simp add: t y p) (simp add: nat_two_records_def rec_of_def)
qed

lemma nat_rounding_forecast: "predict_pop_2035 nat_rounding = Inr (2 ^ 53)"
  by code_simp

theorem predict_pop_2035_no_record:
  "length ([] :: row list) < 3 \<and> predict_pop_2035 [] = Inl ValueError"
  by (simp add: predict_pop_2035_def tail_def mean_def)

subsection \<open>Sorting a series by value\<close>

lemma value_ge_None [simp]: "value_ge a None"
  by (simp add: value_ge_def)

lemma set_sort_values_desc [simp]: "set (sort_values_desc s) = set s"
  by (auto simp: sort_values_desc_def)

lemma length_sort_values_desc [simp]: "length (sort_values_desc s) = length s"
  using sum_length_filter_compl [of "\<lambda>p. snd p \<noteq> None" s]
  by (simp add: sort_values_desc_def)

lemma distinct_sort_values_desc: "distinct s \<Longrightarrow> distinct (sort_values_desc s)"
  by (auto simp: sort_values_desc_def)

lemma distinct_labels_sort_values_desc:
  assumes "distinct (map fst s)"
  shows "distinct (map fst (sort_values_desc s))"
proof -
  from assms have "distinct s" and "inj_on fst (set s)"
    by (simp_all add: distinct_map)
  then show ?thesis
    by (simp add: distinct_map distinct_sort_values_desc)
qed

lemma sorted_sort_values_desc:
  "sorted_wrt (\<lambda>a b. value_ge (snd a) (snd b)) (sort_values_desc s)"
proof -
  let ?A = "sort_key (\<lambda>p. - the (snd p)) (filter (\<lambda>p. snd p \<noteq> None) s)"
  let ?B = "filter (\<lambda>p. snd p = None) s"
  have "sorted (map (\<lambda>p. - the (snd p)) ?A)" by (rule sorted_sort_key)
  then have s: "sorted_wrt (\<lambda>a b. - the (snd a) \<le> - the (snd b)) ?A"
    by (simp only: sorted_map)
  have A: "sorted_wrt (\<lambda>a b. value_ge (snd a) (snd b)) ?A"
  proof (rule sorted_wrt_mono_rel [OF _ s])
    fix a b assume "a \<in> set ?A" and "b \<in> set ?A" and le: "- the (snd a) \<le> - the (snd b)"
    then obtain x y where "snd a = Some x" "snd b = Some y" by auto
    with le show "value_ge (snd a) (snd b)" by (simp add: value_ge_def)
  qed
  have B: "sorted_wrt (\<lambda>a b. value_ge (snd a) (snd b)) ?B"
  proof (rule sorted_wrt_mono_rel [of _ "\<lambda>a b. True"])
    fix a b assume "b \<in> set ?B"
    then have "snd b = None" by simp
    then show "value_ge (snd a) (snd b)" by simp
  next
    show "sorted_wrt (\<lambda>a b. True) ?B" by (simp only: sorted_wrt_true)
  qed
  have AB: "\<forall>a\<in>set ?A. \<forall>b\<in>set ?B. value_ge (snd a) (snd b)" by simp
  show ?thesis unfolding sort_values_desc_def sorted_wrt_append
    using A B AB by blast
qed

lemma defined_first:
  assumes "i < length (filter (\<lambda>p. snd p \<noteq> None) s)"
  shows "snd (sort_values_desc s ! i) \<noteq> None"
proof -
  let ?A = "sort_key (\<lambda>p. - the (snd p)) (filter (\<lambda>p. snd p \<noteq> None) s)"
  have "i < length ?A" using assms by simp
  then have "sort_values_desc s ! i = ?A ! i" and "?A ! i \<in> set ?A"
    by (simp_all add: sort_values_desc_def nth_append del: set_sort)
  then show ?thesis by auto
qed

lemma sorted_wrt_take_drop:
  assumes "sorted_wrt R xs" and "a \<in> set (take n xs)" and "b \<in> set (drop n xs)"
  shows "R a b"
proof -
  from assms(1) have "sorted_wrt R (take n xs @ drop n xs)" by simp
  with assms(2,3) show ?thesis unfolding sorted_wrt_append by blast
qed

subsection \<open>Subtracting two series\<close>

lemma lookup_all_distinct:
  "distinct (map fst s) \<Longrightarrow>
   lookup_all k s = (case map_of s k of None \<Rightarrow> [] | Some v \<Rightarrow> [v])"
proof (induction s)
  case Nil
  show ?case by (simp add: lookup_all_def)
next
  case (Cons p s)
  obtain k' v where p: "p = (k', v)" by (cases p)
  show ?case
  proof (cases "k' = k")
    case True
    with Cons.prems p have "map_of s k = None"
      by (simp add: map_of_eq_None_iff)
    with Cons p True show ?thesis by (simp add: lookup_all_def)
  next
    case False
    with Cons p show ?thesis by (simp add: lookup_all_def)
  qed
qed

lemma join_label_distinct:
  assumes "distinct (map fst l)" and "distinct (map fst r)"
    and "k \<in> set (map fst l) \<union> set (map fst r)"
  shows "join_label k l r = [(k, map_of l k, map_of r k)]"
proof -
  from assms(3) have "map_of l k \<noteq> None \<or> map_of r k \<noteq> None"
    by (auto simp: map_of_eq_None_iff)
  then show ?thesis
    unfolding join_label_def Let_def lookup_all_distinct [OF assms(1)]
      lookup_all_distinct [OF assms(2)]
    by (auto split: option.splits)
qed

lemma join_label_fst: "p \<in> set (join_label k l r) \<Longrightarrow> fst p = k"
  by (auto simp: join_label_def Let_def split: if_splits)

lemma align_labels:
  assumes "e \<in> set (align l r)"
  shows "fst e \<in> set (map fst l) \<union> set (map fst r)"
proof (cases "map fst l = map fst r")
  case True
  with assms obtain p q where pq: "(p, q) \<in> set (zip l r)" and e: "fst e = fst p"
    unfolding align_def by auto
  from pq have "p \<in> set l" by (rule set_zip_leftD)
  with e show ?thesis by simp
next
  case False
  with assms obtain k where k: "k \<in> set (map fst l @ map fst r)"
    and "e \<in> set (join_label k l r)"
    unfolding align_def by auto
  then have "fst e = k" by (simp only: join_label_fst)
  with k show ?thesis by simp
qed

lemma series_sub_labels:
  assumes "e \<in> set (series_sub l r)"
  shows "fst e \<in> set (map fst l) \<union> set (map fst r)"
proof -
  from assms obtain a where "a \<in> set (align l r)" and "fst e = fst a"
    unfolding series_sub_def Let_def by auto
  with align_labels [of a l r] show ?thesis by simp
qed

lemma align_distinct:
  assumes dl: "distinct (map fst l)" and dr: "distinct (map fst r)"
  shows "\<exists>ks. distinct ks \<and> set ks = set (map fst l) \<union> set (map fst r) \<and>
           align l r = map (\<lambda>k. (k, map_of l k, map_of r k)) ks"
proof (cases "map fst l = map fst r")
  case True
  then have len: "length l = length r" by (metis length_map)
  have "align l r = map (\<lambda>k. (k, map_of l k, map_of r k)) (map fst l)"
  proof (rule nth_equalityI)
    show "length (align l r)
        = length (map (\<lambda>k. (k, map_of l k, map_of r k)) (map fst l))"
      using True len by (simp add: align_def)
  next
    fix i assume "i < length (align l r)"
    then have i: "i < length l" "i < length r" using True len by (simp_all add: align_def)
    have li: "map_of l (fst (l ! i)) = Some (snd (l ! i))"
      using dl i by (simp add: map_of_eq_Some_iff)
    have eq: "fst (r ! i) = fst (l ! i)" using True i by (metis nth_map)
    have "map_of r (fst (r ! i)) = Some (snd (r ! i))"
      using dr i by (simp add: map_of_eq_Some_iff)
    then have ri: "map_of r (fst (l ! i)) = Some (snd (r ! i))"
      by (simp only: eq)
    have "align l r ! i = (fst (l ! i), Some (snd (l ! i)), Some (snd (r ! i)))"
      using i by (simp add: align_def if_P [OF True])
    also have "\<dots> = map (\<lambda>k. (k, map_of l k, map_of r k)) (map fst l) ! i"
      using i li ri by simp
    finally show "align l r ! i
        = map (\<lambda>k. (k, map_of l k, map_of r k)) (map fst l) ! i" .
  qed
  with dl True show ?thesis by (intro exI [of _ "map fst l"]) simp
next
  case False
  let ?ks = "sort (remdups (map fst l @ map fst r))"
  have "concat (map (\<lambda>k. join_label k l r) ?ks)
      = concat (map (\<lambda>k. [(k, map_of l k, map_of r k)]) ?ks)"
    by (rule arg_cong [where f = concat], rule map_cong [OF refl])
       (simp add: join_label_distinct [OF dl dr])
  also have "\<dots> = map (\<lambda>k. (k, map_of l k, map_of r k)) ?ks"
    by (induction ?ks) simp_all
  finally have "align l r = map (\<lambda>k. (k, map_of l k, map_of r k)) ?ks"
    using False by (simp add: align_def)
  then show ?thesis by (intro exI [of _ ?ks]) simp
qed

lemma sub_in_range:
  assumes "\<bar>x\<bar> \<le> 2 ^ 52" and "\<bar>y\<bar> \<le> 2 ^ 52"
  shows "(if b then float_sub x y else wrap64 (x - y)) = x - y"
proof -
  have "fits_int64 (x - y)" using assms by (simp add: fits_int64_def abs_le_iff)
  then show ?thesis using assms by (simp add: wrap64_id float_sub_exact)
qed

lemma series_sub_distinct:
  assumes dl: "distinct (map fst l)" and dr: "distinct (map fst r)"
    and rl: "\<forall>p\<in>set l. \<bar>snd p\<bar> \<le> 2 ^ 52" and rr: "\<forall>p\<in>set r. \<bar>snd p\<bar> \<le> 2 ^ 52"
  shows "\<exists>ks. distinct ks \<and> set ks = set (map fst l) \<union> set (map fst r) \<and>
           series_sub l r = map (\<lambda>k. (k, combine (map_of l k) (map_of r k))) ks"
proof -
  from align_distinct [OF dl dr]
  obtain ks where d: "distinct ks" and s: "set ks = set (map fst l) \<union> set (map fst r)"
    and a: "align l r = map (\<lambda>k. (k, map_of l k, map_of r k)) ks"
    by blast
  have "(case (map_of l k, map_of r k) of
           (Some x, Some y) \<Rightarrow> Some (if b then float_sub x y else wrap64 (x - y))
         | _ \<Rightarrow> None) = combine (map_of l k) (map_of r k)" for k b
  proof (cases "map_of l k")
    case None
    then show ?thesis by (simp add: combine_def)
  next
    case (Some x)
    then have "(k, x) \<in> set l" by (rule map_of_SomeD)
    with rl have x: "\<bar>x\<bar> \<le> 2 ^ 52" by force
    show ?thesis
    proof (cases "map_of r k")
      case None
      with Some show ?thesis by (simp add: combine_def)
    next
      case (Some y)
      then have "(k, y) \<in> set r" by (rule map_of_SomeD)
      with rr have "\<bar>y\<bar> \<le> 2 ^ 52" by force
      with x \<open>map_of l k = Some x\<close> Some show ?thesis
        by (simp add: combine_def sub_in_range)
    qed
  qed
  then have "series_sub l r = map (\<lambda>k. (k, combine (map_of l k) (map_of r k))) ks"
    by (simp add: series_sub_def Let_def a comp_def)
  with d s show ?thesis by blast
qed

subsection \<open>The five-year regional delta\<close>

lemma rows_of_year_region:
  "e \<in> set (rows_of_year y df) \<Longrightarrow> \<exists>r\<in>set df. fst e = region r"
  by (cases y) (auto simp: rows_of_year_def)

lemma labels_rows_of_year:
  "set (map fst (rows_of_year (Some y) df)) = {region r | r. r \<in> set df \<and> year r = y}"
  by (auto simp: rows_of_year_def)

lemma map_of_rows_of_year:
  "map_of (rows_of_year (Some y) df) g = population_at df g y"
  by (induction df) (auto simp: rows_of_year_def population_at_def)

lemma distinct_rows_of_year:
  assumes "distinct (map (\<lambda>r. (region r, year r)) df)"
  shows "distinct (map fst (rows_of_year (Some y) df))"
proof -
  from assms have d: "distinct df" and i: "inj_on (\<lambda>r. (region r, year r)) (set df)"
    by (simp_all add: distinct_map)
  have "inj_on region (set (filter (\<lambda>r. year r = y) df))"
  proof (rule inj_onI)
    fix a b assume "a \<in> set (filter (\<lambda>r. year r = y) df)"
      and "b \<in> set (filter (\<lambda>r. year r = y) df)" and "region a = region b"
    then have "a \<in> set df" "b \<in> set df" "(region a, year a) = (region b, year b)" by simp_all
    with i show "a = b" by (meson inj_onD)
  qed
  with d show ?thesis by (simp add: rows_of_year_def distinct_map comp_def)
qed

lemma delta_of_combine:
  "combine (map_of (rows_of_year (Some y) df) g) (map_of (rows_of_year (Some (y - 4)) df) g)
     = delta_of df y g"
  by (simp add: map_of_rows_of_year combine_def delta_of_def)

lemma region_names_total:
  "\<forall>k\<in>set ks. k \<in> dom REGION_KR2EN \<Longrightarrow> \<exists>es. region_names ks = Inr es"
  by (induction ks) auto

lemma max_list_Max:
  "max_list xs = Some m \<Longrightarrow> m \<in> set xs \<and> (\<forall>x\<in>set xs. x \<le> m)"
proof (induction xs arbitrary: m)
  case Nil
  then show ?case by simp
next
  case (Cons x xs)
  show ?case
  proof (cases "max_list xs")
    case None
    then have "xs = []" by (cases xs) (auto split: option.splits)
    with Cons.prems show ?thesis by simp
  next
    case (Some m')
    with Cons.IH have "m' \<in> set xs" and "\<forall>x\<in>set xs. x \<le> m'" by simp_all
    with Cons.prems Some show ?thesis by (auto simp: max_def split: if_splits)
  qed
qed

lemma method_runs:
  assumes "predict_pop_2035 (national_rows df) = Inr f" and "regional_delta df = Inr d"
  shows "population_trend_eda df =
     \<lparr>forecast = Some f, regional = Some d, top_diffs = Some (top100 df),
      raised = styled_cells (top100 df)\<rparr>"
  using assms by (simp add: population_trend_eda_def)

lemma method_tab3_raises:
  assumes "predict_pop_2035 (national_rows df) = Inr f" and "regional_delta df = Inl e"
  shows "population_trend_eda df =
     \<lparr>forecast = Some f, regional = None, top_diffs = None, raised = Some e\<rparr>"
  using assms by (simp add: population_trend_eda_def)

lemma method_views:
  assumes "top_diffs (population_trend_eda df) = Some t"
  shows "t = top100 df"
  using assms by (auto simp: population_trend_eda_def split: sum.splits)

lemma national_rows_Nil:
  "(\<forall>r\<in>set df. region r \<noteq> national) \<Longrightarrow> national_rows df = []"
  by (simp add: national_rows_def filter_empty_conv)

lemma predict_Nil: "predict_pop_2035 [] = Inl ValueError"
  by (simp add: predict_pop_2035_def tail_def mean_def)

text \<open>
  C9 (as amended). When no row of the table belongs to the national aggregate, the
  five-year delta has no output, and neither has any later tab: the method ends in tab 2,
  where the forecast over no national record raises a ValueError. The drop of the
  national label in tab 3 is not reached.
\<close>

theorem method_without_national:
  assumes "\<forall>r\<in>set df. region r \<noteq> national"
  shows "population_trend_eda df =
     \<lparr>forecast = None, regional = None, top_diffs = None, raised = Some ValueError\<rparr>"
  using national_rows_Nil [OF assms] by (simp add: population_trend_eda_def predict_Nil)

theorem method_without_national_witness:
  "map region table_A_B = [''A'', ''B'', ''A'', ''B''] \<and> ''A'' \<noteq> national \<and> ''B'' \<noteq> national \<and>
   population_trend_eda table_A_B =
     \<lparr>forecast = None, regional = None, top_diffs = None, raised = Some ValueError\<rparr>"
proof -
  have r: "map region table_A_B = [''A'', ''B'', ''A'', ''B'']"
    by (simp add: table_A_B_def rec_of_def)
  have n: "''A'' \<noteq> national" "''B'' \<noteq> national" by (simp_all add: label_defs)
  have "\<forall>r\<in>set table_A_B. region r \<noteq> national"
    by (simp add: table_A_B_def rec_of_def label_defs)
  from method_without_national [OF this] r n show ?thesis by simp
qed

lemma table_two_years_forecast:
  "predict_pop_2035 (national_rows table_two_years) = Inl ValueError"
  by code_simp

theorem forecast_raises_before_drop:
  "map region table_two_years = [seoul, seoul] \<and>
   predict_pop_2035 (national_rows table_two_years) = Inl ValueError \<and>
   regional (population_trend_eda table_two_years) = None \<and>
   raised (population_trend_eda table_two_years) = Some ValueError"
  using table_two_years_forecast
  by (simp add: population_trend_eda_def) (simp add: table_two_years_def rec_of_def)

lemma drop_label_map:
  assumes "k \<in> set ks"
  shows "drop_label k (map (\<lambda>g. (g, f g)) ks) = Inr (map (\<lambda>g. (g, f g)) (filter (\<lambda>g. g \<noteq> k) ks))"
proof -
  have "map fst (map (\<lambda>g. (g, f g)) ks) = ks" by (simp add: comp_def)
  moreover have "filter (\<lambda>p. fst p \<noteq> k) (map (\<lambda>g. (g, f g)) ks)
      = map (\<lambda>g. (g, f g)) (filter (\<lambda>g. g \<noteq> k) ks)"
    by (simp add: filter_map comp_def)
  ultimately show ?thesis using assms by (simp add: drop_label_def)
qed

lemma regional_delta_series:
  assumes keys: "distinct (map (\<lambda>r. (region r, year r)) df)"
    and range: "\<forall>r\<in>set df. \<bar>population r\<bar> \<le> 2 ^ 52"
  shows "\<exists>ks. distinct ks \<and>
           set ks = {region r | r. r \<in> set df \<and> (year r = y \<or> year r = y - 4)} \<and>
           series_sub (rows_of_year (Some y) df) (rows_of_year (Some (y - 4)) df)
             = map (\<lambda>g. (g, delta_of df y g)) ks"
proof -
  let ?l = "rows_of_year (Some y) df" and ?r = "rows_of_year (Some (y - 4)) df"
  have rl: "\<forall>p\<in>set ?l. \<bar>snd p\<bar> \<le> 2 ^ 52" and rr: "\<forall>p\<in>set ?r. \<bar>snd p\<bar> \<le> 2 ^ 52"
    using range by (auto simp: rows_of_year_def)
  from series_sub_distinct [OF distinct_rows_of_year [OF keys] distinct_rows_of_year [OF keys]
      rl rr]
  obtain ks where d: "distinct ks" and s: "set ks = set (map fst ?l) \<union> set (map fst ?r)"
    and e: "series_sub ?l ?r = map (\<lambda>k. (k, combine (map_of ?l k) (map_of ?r k))) ks"
    by blast
  have "set ks = {region r | r. r \<in> set df \<and> (year r = y \<or> year r = y - 4)}"
    unfolding s labels_rows_of_year by blast
  with d e show ?thesis unfolding delta_of_combine by blast
qed

lemma regional_delta_block:
  assumes y: "max_list (map year df) = Some y"
    and keys: "distinct (map (\<lambda>r. (region r, year r)) df)"
    and range: "\<forall>r\<in>set df. \<bar>population r\<bar> \<le> 2 ^ 52"
    and nat: "\<exists>r\<in>set df. region r = national \<and> (year r = y \<or> year r = y - 4)"
    and names: "\<forall>r\<in>set df. (year r = y \<or> year r = y - 4) \<longrightarrow> region r \<in> dom REGION_KR2EN"
  shows "\<exists>v. regional_delta df = Inr v \<and>
           set (delta v) =
             {(g, delta_of df y g) | g.
                g \<noteq> national \<and> (\<exists>r\<in>set df. region r = g \<and> (year r = y \<or> year r = y - 4))} \<and>
           distinct (map fst (delta v)) \<and>
           sorted_wrt (\<lambda>a b. value_ge (snd a) (snd b)) (delta v) \<and>
           rising v = take 3 (map fst (delta v)) \<and>
           declining v = drop (length (delta v) - 3) (map fst (delta v))"
proof -
  let ?F = "\<lambda>g. (g, delta_of df y g)"
  from regional_delta_series [OF keys range, of y]
  obtain ks where dks: "distinct ks"
    and sks: "set ks = {region r | r. r \<in> set df \<and> (year r = y \<or> year r = y - 4)}"
    and sub: "series_sub (rows_of_year (Some y) df) (rows_of_year (Some (y - 4)) df) = map ?F ks"
    by blast
  let ?ks = "filter (\<lambda>g. g \<noteq> national) ks"
  let ?d = "sort_values_desc (map ?F ?ks)"
  have "national \<in> set ks" using nat unfolding sks by force
  then have dropped: "drop_label national (map ?F ks) = Inr (map ?F ?ks)"
    by (rule drop_label_map)
  have lab: "map fst (map ?F ?ks) = ?ks" by (simp add: comp_def)
  have set_lab: "set (map fst ?d) = set ?ks"
    by (simp only: set_map set_sort_values_desc) (simp add: image_image)
  have "\<forall>k\<in>set (map fst ?d). k \<in> dom REGION_KR2EN"
    unfolding set_lab using names sks by auto
  then obtain es where es: "region_names (map fst ?d) = Inr es"
    using region_names_total by blast
  let ?v = "\<lparr>delta = ?d, bar_labels = es, rising = map fst (take 3 ?d),
             declining = map fst (tail 3 ?d)\<rparr>"
  have run: "regional_delta df = Inr ?v"
    using es by (simp add: regional_delta_def Let_def y sub dropped)
  have entries: "set (delta ?v) =
      {(g, delta_of df y g) | g.
         g \<noteq> national \<and> (\<exists>r\<in>set df. region r = g \<and> (year r = y \<or> year r = y - 4))}"
    using sks by auto
  have dist: "distinct (map fst (delta ?v))"
    using dks lab by (simp add: distinct_labels_sort_values_desc del: map_map)
  have sorted: "sorted_wrt (\<lambda>a b. value_ge (snd a) (snd b)) (delta ?v)"
    by (simp add: sorted_sort_values_desc)
  have top: "rising ?v = take 3 (map fst (delta ?v))"
    by (simp add: take_map)
  have bottom: "declining ?v = drop (length (delta ?v) - 3) (map fst (delta ?v))"
    by (simp add: tail_def drop_map)
  from run entries dist sorted top bottom show ?thesis by blast
qed

text \<open>
  C3 (as amended). Let y be the largest year of the table. Take a table whose keys
  (region, year) are unique, whose populations are at most 2^52 in magnitude, in which a
  row of the national aggregate has year y or y - 4, in which every region with a row in
  one of these two years is a key of the region-name table, and on which the forecast of
  tab 2 succeeds. Then the method reaches tab 3, and the view has one entry for each
  region other than the national aggregate that has a row in year y or y - 4. Its delta
  is population(region, y) - population(region, y - 4) when the region has a row in both
  years, and undefined otherwise. The entries are in descending order of delta, the
  undefined ones last; the three rising regions are the first three labels and the three
  declining ones the last three.
\<close>

theorem regional_delta_view:
  assumes y: "max_list (map year df) = Some y"
    and keys: "distinct (map (\<lambda>r. (region r, year r)) df)"
    and range: "\<forall>r\<in>set df. \<bar>population r\<bar> \<le> 2 ^ 52"
    and nat: "\<exists>r\<in>set df. region r = national \<and> (year r = y \<or> year r = y - 4)"
    and names: "\<forall>r\<in>set df. (year r = y \<or> year r = y - 4) \<longrightarrow> region r \<in> dom REGION_KR2EN"
    and tab2: "predict_pop_2035 (national_rows df) = Inr f"
  shows "\<exists>v. regional (population_trend_eda df) = Some v \<and>
           set (delta v) =
             {(g, delta_of df y g) | g.
                g \<noteq> national \<and> (\<exists>r\<in>set df. region r = g \<and> (year r = y \<or> year r = y - 4))} \<and>
           distinct (map fst (delta v)) \<and>
           sorted_wrt (\<lambda>a b. value_ge (snd a) (snd b)) (delta v) \<and>
           rising v = take 3 (map fst (delta v)) \<and>
           declining v = drop (length (delta v) - 3) (map fst (delta v))"
proof -
  from regional_delta_block [OF y keys range nat names]
  obtain v where v: "regional_delta df = Inr v"
    and p: "set (delta v) =
             {(g, delta_of df y g) | g.
                g \<noteq> national \<and> (\<exists>r\<in>set df. region r = g \<and> (year r = y \<or> year r = y - 4))}"
      "distinct (map fst (delta v))"
      "sorted_wrt (\<lambda>a b. value_ge (snd a) (snd b)) (delta v)"
      "rising v = take 3 (map fst (delta v))"
      "declining v = drop (length (delta v) - 3) (map fst (delta v))"
    by blast
  have "regional (population_trend_eda df) = Some v"
    unfolding method_runs [OF tab2 v] by simp
  with p show ?thesis by blast
qed

lemma table_seoul_busan_forecast:
  "predict_pop_2035 (national_rows table_seoul_busan) = Inr 150"
  by code_simp

lemma table_seoul_busan_delta:
  "regional_delta table_seoul_busan =
     Inr \<lparr>delta = [(seoul, Some 30), (busan, Some (- 20))],
          bar_labels = [''Seoul'', ''Busan''],
          rising = [seoul, busan], declining = [seoul, busan]\<rparr>"
  by code_simp

theorem regional_delta_view_witness:
  "max_list (map year table_seoul_busan) = Some 2022 \<and>
   distinct (map (\<lambda>r. (region r, year r)) table_seoul_busan) \<and>
   map (\<lambda>r. (region r, year r, population r)) table_seoul_busan =
     [(seoul, 2018, 50), (busan, 2018, 90), (national, 2018, 140),
      (seoul, 2022, 80), (busan, 2022, 70), (national, 2022, 150)] \<and>
   regional (population_trend_eda table_seoul_busan) =
     Some \<lparr>delta = [(seoul, Some 30), (busan, Some (- 20))],
           bar_labels = [''Seoul'', ''Busan''],
           rising = [seoul, busan], declining = [seoul, busan]\<rparr> \<and>
   sorted_wrt (\<lambda>a b. value_ge (snd a) (snd b)) [(seoul, Some 30), (busan, Some (- 20))]"
proof -
  have y: "max_list (map year table_seoul_busan) = Some 2022"
    by (simp add: table_seoul_busan_def rec_of_def)
  have keys: "distinct (map (\<lambda>r. (region r, year r)) table_seoul_busan)"
    by (simp add: table_seoul_busan_def rec_of_def label_defs)
  have rows: "map (\<lambda>r. (region r, year r, population r)) table_seoul_busan =
     [(seoul, 2018, 50), (busan, 2018, 90), (national, 2018, 140),
      (seoul, 2022, 80), (busan, 2022, 70), (national, 2022, 150)]"
    by (simp add: table_seoul_busan_def rec_of_def)
  have range: "\<forall>r\<in>set table_seoul_busan. \<bar>population r\<bar> \<le> 2 ^ 52"
    by (simp add: table_seoul_busan_def rec_of_def)
  have nat: "\<exists>r\<in>set table_seoul_busan.
      region r = national \<and> (year r = 2022 \<or> year r = 2022 - 4)"
    by (simp add: table_seoul_busan_def rec_of_def)
  have names: "\<forall>r\<in>set table_seoul_busan.
      (year r = 2022 \<or> year r = 2022 - 4) \<longrightarrow> region r \<in> dom REGION_KR2EN"
    by (simp add: table_seoul_busan_def rec_of_def REGION_KR2EN_def region_table_def
        dom_map_of_conv_image_fst)
  have r: "regional (population_trend_eda table_seoul_busan) =
     Some \<lparr>delta = [(seoul, Some 30), (busan, Some (- 20))],
           bar_labels = [''Seoul'', ''Busan''],
           rising = [seoul, busan], declining = [seoul, busan]\<rparr>"
    unfolding method_runs [OF table_seoul_busan_forecast table_seoul_busan_delta] by simp
  from regional_delta_view [OF y keys range nat names table_seoul_busan_forecast]
  obtain v where "regional (population_trend_eda table_seoul_busan) = Some v"
    and "sorted_wrt (\<lambda>a b. value_ge (snd a) (snd b)) (delta v)"
    by blast
  with r have "sorted_wrt (\<lambda>a b. value_ge (snd a) (snd b))
      [(seoul, Some 30), (busan, Some (- 20))]"
    by auto
  with y keys rows r show ?thesis by blast
qed

lemma table_national_2020_forecast:
  "predict_pop_2035 (national_rows table_national_2020) = Inr 145"
  by code_simp

lemma table_national_2020_delta:
  "regional_delta table_national_2020 = Inl (KeyError national)"
  by code_simp

theorem regional_delta_national_other_year:
  "map (\<lambda>r. (region r, year r, population r)) table_national_2020 =
     [(seoul, 2018, 50), (busan, 2018, 90), (national, 2020, 145),
      (seoul, 2022, 80), (busan, 2022, 70)] \<and>
   population_trend_eda table_national_2020 =
     \<lparr>forecast = Some 145, regional = None, top_diffs = None,
      raised = Some (KeyError national)\<rparr> \<and>
   map (\<lambda>r. (region r, year r, population r)) table_A_B =
     [(''A'', 2018, 50), (''B'', 2018, 90), (''A'', 2022, 80), (''B'', 2022, 70)] \<and>
   regional (population_trend_eda table_A_B) = None"
proof -
  have "predict_pop_2035 (national_rows table_A_B) = Inl ValueError"
    by code_simp
  then have "regional (population_trend_eda table_A_B) = None"
    by (simp add: population_trend_eda_def)
  moreover have "map (\<lambda>r. (region r, year r, population r)) table_A_B =
     [(''A'', 2018, 50), (''B'', 2018, 90), (''A'', 2022, 80), (''B'', 2022, 70)]"
    by (simp add: table_A_B_def rec_of_def)
  moreover have "map (\<lambda>r. (region r, year r, population r)) table_national_2020 =
     [(seoul, 2018, 50), (busan, 2018, 90), (national, 2020, 145),
      (seoul, 2022, 80), (busan, 2022, 70)]"
    by (simp add: table_national_2020_def rec_of_def)
  ultimately show ?thesis
    using method_tab3_raises [OF table_national_2020_forecast table_national_2020_delta]
    by simp
qed

subsection \<open>The largest year-over-year differences\<close>

lemma groupby_diff_adjacent:
  assumes "sorted (map region s)"
    and "\<forall>r\<in>set s. \<bar>population r\<bar> \<le> 2 ^ 52"
    and "case p of
           None \<Rightarrow> prev = Map.empty
         | Some q \<Rightarrow> prev (region q) = Some (population q) \<and> \<bar>population q\<bar> \<le> 2 ^ 52 \<and>
                     (\<forall>g\<in>dom prev. g \<le> region q) \<and> (\<forall>r\<in>set s. region q \<le> region r)"
  shows "groupby_diff prev s = adjacent_diff p s"
  using assms
proof (induction s arbitrary: prev p)
  case Nil
  show ?case by simp
next
  case (Cons r rs)
  have pr: "\<bar>population r\<bar> \<le> 2 ^ 52" using Cons.prems(2) by simp
  have entry: "map_option (\<lambda>v. float_sub (population r) v) (prev (region r))
      = (case p of None \<Rightarrow> None
         | Some q \<Rightarrow> if region q = region r then Some (population r - population q) else None)"
  proof (cases p)
    case None
    with Cons.prems(3) show ?thesis by simp
  next
    case (Some q)
    with Cons.prems(3) have q: "prev (region q) = Some (population q)"
      and pq: "\<bar>population q\<bar> \<le> 2 ^ 52"
      and dom: "\<forall>g\<in>dom prev. g \<le> region q" and le: "region q \<le> region r" by simp_all
    show ?thesis
    proof (cases "region q = region r")
      case True
      with q Some pr pq show ?thesis by (simp add: float_sub_exact)
    next
      case False
      with le have "region q < region r" by simp
      with dom have "region r \<notin> dom prev" by force
      then have "prev (region r) = None" by blast
      with False Some show ?thesis by simp
    qed
  qed
  have sorted: "sorted (map region rs)" and ge: "\<forall>x\<in>set rs. region r \<le> region x"
    and range: "\<forall>x\<in>set rs. \<bar>population x\<bar> \<le> 2 ^ 52"
    using Cons.prems(1,2) by simp_all
  have "\<forall>g\<in>dom (prev(region r \<mapsto> population r)). g \<le> region r"
  proof (cases p)
    case None
    with Cons.prems(3) show ?thesis by simp
  next
    case (Some q)
    with Cons.prems(3) have a: "\<forall>g\<in>dom prev. g \<le> region q" and b: "region q \<le> region r"
      by simp_all
    show ?thesis
    proof
      fix g assume "g \<in> dom (prev(region r \<mapsto> population r))"
      then have "g = region r \<or> g \<in> dom prev" by auto
      with a b show "g \<le> region r" by (metis order_refl order_trans)
    qed
  qed
  with ge pr have "groupby_diff (prev(region r \<mapsto> population r)) rs = adjacent_diff (Some r) rs"
    by (intro Cons.IH [OF sorted range]) simp
  with entry show ?case by simp
qed

lemma sorted_region_year:
  "sorted (map region (sort_key (\<lambda>r. (region r, year r)) df))"
proof -
  let ?s = "sort_key (\<lambda>r. (region r, year r)) df"
  have "sorted (map (\<lambda>r. (region r, year r)) ?s)" by (rule sorted_sort_key)
  then have "sorted_wrt (\<lambda>a b. (region a, year a) \<le> (region b, year b)) ?s"
    by (simp only: sorted_map)
  then have "sorted_wrt (\<lambda>a b. region a \<le> region b) ?s"
    by (rule sorted_wrt_mono_rel [rotated]) (auto simp: less_eq_prod_def)
  then show ?thesis by (simp only: sorted_map)
qed

lemma diff_df_adjacent:
  assumes "\<forall>r\<in>set df. \<bar>population r\<bar> \<le> 2 ^ 52"
  shows "diff_df df =
     filter (\<lambda>p. region (fst p) \<noteq> national)
       (adjacent_diff None (sort_key (\<lambda>r. (region r, year r)) df))"
proof -
  have "groupby_diff Map.empty (sort_key (\<lambda>r. (region r, year r)) df)
      = adjacent_diff None (sort_key (\<lambda>r. (region r, year r)) df)"
    using assms by (intro groupby_diff_adjacent [OF sorted_region_year]) simp_all
  then show ?thesis by (simp add: diff_df_def)
qed

lemma groupby_diff_rows: "map fst (groupby_diff prev s) = s"
  by (induction s arbitrary: prev) simp_all

lemma adjacent_diff_rows: "map fst (adjacent_diff p s) = s"
  by (induction s arbitrary: p) simp_all

lemma diff_df_rows:
  assumes "e \<in> set (diff_df df)"
  shows "fst e \<in> set df \<and> region (fst e) \<noteq> national"
proof -
  let ?s = "sort_key (\<lambda>r. (region r, year r)) df"
  from assms have "e \<in> set (groupby_diff Map.empty ?s)" and n: "region (fst e) \<noteq> national"
    by (simp_all add: diff_df_def)
  then have "fst e \<in> set (map fst (groupby_diff Map.empty ?s))"
    by (simp del: groupby_diff_rows)
  then have "fst e \<in> set df" by (simp add: groupby_diff_rows)
  with n show ?thesis by simp
qed

lemma undefined_kept:
  "length (filter (\<lambda>e. snd e = None) (take n (sort_values_desc D)))
     = min (length (filter (\<lambda>e. snd e = None) D))
           (n - length (filter (\<lambda>e. snd e \<noteq> None) D))"
proof -
  let ?A = "sort_key (\<lambda>p. - the (snd p)) (filter (\<lambda>p. snd p \<noteq> None) D)"
  let ?B = "filter (\<lambda>p. snd p = None) D"
  have "filter (\<lambda>e. snd e = None) (take n ?A) = []"
    unfolding filter_empty_conv by (auto dest!: in_set_takeD)
  moreover have "filter (\<lambda>e. snd e = None) (take (n - length ?A) ?B) = take (n - length ?A) ?B"
    unfolding filter_id_conv by (auto dest!: in_set_takeD)
  ultimately have "filter (\<lambda>e. snd e = None) (take n (?A @ ?B)) = take (n - length ?A) ?B"
    by simp
  then show ?thesis by (simp add: sort_values_desc_def min.commute)
qed

text \<open>
  C4 (as amended). Take a table with populations of at most 2^52 in magnitude on which
  the method reaches tab 4. The table of that tab is made as follows: the rows are
  sorted by region and year, each row gets the difference of its population to the
  population of the row before it when that row is of the same region, and the first row
  of a region gets no difference; the rows of the national aggregate are left out; at
  most 100 rows are kept, in descending order of the difference, rows without a
  difference last, and no row left out has a larger difference than a row kept. First
  rows of regions are kept to fill the 100 places that the rows with a difference leave
  free: with d rows that have a difference and u first rows, the table keeps
  min u (100 - d) first rows, none when d is at least 100.
\<close>

theorem top100_view:
  assumes "top_diffs (population_trend_eda df) = Some t"
    and "\<forall>r\<in>set df. \<bar>population r\<bar> \<le> 2 ^ 52"
  shows "diff_df df =
     filter (\<lambda>p. region (fst p) \<noteq> national)
       (adjacent_diff None (sort_key (\<lambda>r. (region r, year r)) df)) \<and>
   length t = min 100 (length (diff_df df)) \<and>
   set t \<subseteq> set (diff_df df) \<and>
   (\<forall>e\<in>set t. fst e \<in> set df \<and> region (fst e) \<noteq> national) \<and>
   sorted_wrt (\<lambda>a b. value_ge (snd a) (snd b)) t \<and>
   (\<forall>e\<in>set (diff_df df). e \<notin> set t \<longrightarrow> (\<forall>k\<in>set t. value_ge (snd k) (snd e))) \<and>
   length (filter (\<lambda>e. snd e = None) t)
     = min (length (filter (\<lambda>e. snd e = None) (diff_df df)))
           (100 - length (filter (\<lambda>e. snd e \<noteq> None) (diff_df df)))"
proof -
  let ?L = "sort_values_desc (diff_df df)"
  have top: "t = take 100 ?L"
    using method_views [OF assms(1)] by (simp add: top100_def nlargest_def)
  have sL: "sorted_wrt (\<lambda>a b. value_ge (snd a) (snd b)) ?L"
    by (rule sorted_sort_values_desc)
  have c0: "diff_df df =
     filter (\<lambda>p. region (fst p) \<noteq> national)
       (adjacent_diff None (sort_key (\<lambda>r. (region r, year r)) df))"
    using assms(2) by (rule diff_df_adjacent)
  have c1: "length t = min 100 (length (diff_df df))"
    by (simp add: top length_sort_values_desc min.commute)
  have c2: "set t \<subseteq> set (diff_df df)"
    unfolding top using set_take_subset [of 100 ?L] by (simp add: set_sort_values_desc)
  have c3: "\<forall>e\<in>set t. fst e \<in> set df \<and> region (fst e) \<noteq> national"
  proof
    fix e assume "e \<in> set t"
    then have "e \<in> set ?L" unfolding top by (rule in_set_takeD)
    then show "fst e \<in> set df \<and> region (fst e) \<noteq> national"
      by (simp add: diff_df_rows)
  qed
  have c4: "sorted_wrt (\<lambda>a b. value_ge (snd a) (snd b)) t"
    unfolding top using sL by (rule sorted_wrt_take)
  have c5: "\<forall>e\<in>set (diff_df df). e \<notin> set t \<longrightarrow> (\<forall>k\<in>set t. value_ge (snd k) (snd e))"
  proof (intro ballI impI)
    fix e k assume "e \<in> set (diff_df df)" and out: "e \<notin> set t" and k: "k \<in> set t"
    then have "e \<in> set (take 100 ?L @ drop 100 ?L)" by simp
    with out have "e \<in> set (drop 100 ?L)" unfolding top set_append by blast
    with sL k show "value_ge (snd k) (snd e)"
      unfolding top by (rule sorted_wrt_take_drop)
  qed
  have c6: "length (filter (\<lambda>e. snd e = None) t)
     = min (length (filter (\<lambda>e. snd e = None) (diff_df df)))
           (100 - length (filter (\<lambda>e. snd e \<noteq> None) (diff_df df)))"
    unfolding top by (rule undefined_kept)
  from c0 c1 c2 c3 c4 c5 c6 show ?thesis by blast
qed

lemma table_long_forecast: "predict_pop_2035 (national_rows table_long) = Inr 500"
  by code_simp

lemma table_long_delta: "\<not> isl (regional_delta table_long)"
  by code_simp

lemma table_long_range: "\<forall>r\<in>set table_long. \<bar>population r\<bar> \<le> 2 ^ 52"
  by (auto simp: table_long_def rec_of_def)

lemma table_long_adjacent:
  "length (filter (\<lambda>e. snd e \<noteq> None) (filter (\<lambda>p. region (fst p) \<noteq> national)
       (adjacent_diff None (sort_key (\<lambda>r. (region r, year r)) table_long)))) = 101 \<and>
   length (filter (\<lambda>e. snd e = None) (filter (\<lambda>p. region (fst p) \<noteq> national)
       (adjacent_diff None (sort_key (\<lambda>r. (region r, year r)) table_long)))) = 1"
  by code_simp

lemma table_long_defined:
  "length (filter (\<lambda>e. snd e \<noteq> None) (diff_df table_long)) = 101 \<and>
   length (filter (\<lambda>e. snd e = None) (diff_df table_long)) = 1"
  unfolding diff_df_adjacent [OF table_long_range] by (rule table_long_adjacent)

theorem top100_view_witness:
  "length table_long = 104 \<and>
   top_diffs (population_trend_eda table_long) = Some (top100 table_long) \<and>
   length (filter (\<lambda>e. snd e \<noteq> None) (diff_df table_long)) = 101 \<and>
   length (filter (\<lambda>e. snd e = None) (diff_df table_long)) = 1 \<and>
   length (top100 table_long) \<le> 100 \<and>
   length (filter (\<lambda>e. snd e = None) (top100 table_long)) = 0"
proof -
  have n: "length table_long = 104" by (simp add: table_long_def)
  obtain d where d: "regional_delta table_long = Inr d"
    using table_long_delta by (cases "regional_delta table_long") auto
  have out: "top_diffs (population_trend_eda table_long) = Some (top100 table_long)"
    unfolding method_runs [OF table_long_forecast d] by simp
  have "length (filter (\<lambda>e. snd e = None) (top100 table_long))
     = min (length (filter (\<lambda>e. snd e = None) (diff_df table_long)))
           (100 - length (filter (\<lambda>e. snd e \<noteq> None) (diff_df table_long)))"
    and "length (top100 table_long) = min 100 (length (diff_df table_long))"
    using top100_view [OF out table_long_range] by blast+
  then have len: "length (top100 table_long) \<le> 100" by simp_all
  note cnt = \<open>length (filter (\<lambda>e. snd e = None) (top100 table_long))
     = min (length (filter (\<lambda>e. snd e = None) (diff_df table_long)))
           (100 - length (filter (\<lambda>e. snd e \<noteq> None) (diff_df table_long)))\<close>
  from cnt have none: "length (filter (\<lambda>e. snd e = None) (top100 table_long)) = 0"
    unfolding table_long_defined [THEN conjunct1] table_long_defined [THEN conjunct2] by simp
  from n out table_long_defined len none show ?thesis by presburger
qed

lemma table_top_forecast: "predict_pop_2035 (national_rows table_top) = Inr 116"
  by code_simp

lemma table_top_delta: "\<not> isl (regional_delta table_top)"
  by code_simp

lemma table_top_diffs:
  "map (\<lambda>e. (region (fst e), year (fst e), snd e)) (top100 table_top)
     = [(seoul, 2021, Some 5), (seoul, 2020, None)]"
  by code_simp

theorem first_row_in_top100:
  "map (\<lambda>r. (region r, year r, population r)) table_top
     = [(national, 2020, 100), (national, 2021, 102), (seoul, 2020, 10), (seoul, 2021, 15)] \<and>
   map_option (map (\<lambda>e. (region (fst e), year (fst e), snd e)))
       (top_diffs (population_trend_eda table_top))
     = Some [(seoul, 2021, Some 5), (seoul, 2020, None)]"
proof -
  obtain d where d: "regional_delta table_top = Inr d"
    using table_top_delta by (cases "regional_delta table_top") auto
  have rows: "map (\<lambda>r. (region r, year r, population r)) table_top
     = [(national, 2020, 100), (national, 2021, 102), (seoul, 2020, 10), (seoul, 2021, 15)]"
    by (simp add: table_top_def rec_of_def)
  have "top_diffs (population_trend_eda table_top) = Some (top100 table_top)"
    unfolding method_runs [OF table_top_forecast d] by simp
  with rows table_top_diffs show ?thesis by simp
qed

lemma table_top_not_shown:
  "raised (population_trend_eda table_top) = Some ValueError"
proof -
  obtain d where d: "regional_delta table_top = Inr d"
    using table_top_delta by (cases "regional_delta table_top") auto
  have "top100 table_top \<noteq> []" using table_top_diffs by auto
  then show ?thesis
    unfolding method_runs [OF table_top_forecast d] by (simp add: styled_cells_def)
qed

subsection \<open>From the loaded frame to its rows\<close>






subsection \<open>The pivoted tables\<close>











end
